theory Spec2Isabelle
  imports Complex_Main "HOL-Library.Multiset"
begin

section \<open>Python primitives used by the advisor script\<close>

text \<open>
  The script \<^verbatim>\<open>app.py\<close> is a straight-line Streamlit program. Its strings are modelled
  as \<^typ>\<open>string\<close>, one \<^typ>\<open>char\<close> per code point (code points below 256), its dictionaries as
  association lists in insertion order, and the exceptions it can meet as values of
  \<open>pyerr\<close>: every exception in the model derives from Python's \<^verbatim>\<open>Exception\<close>.
\<close>

datatype pyerr = ZeroDivisionError | ValueError | Exception string

fun exc_str :: "pyerr \<Rightarrow> string" where
  "exc_str ZeroDivisionError = ''division by zero''"
| "exc_str ValueError = ''max() arg is an empty sequence''"
| "exc_str (Exception msg) = msg"

text \<open>
  Floats are modelled by the rationals they approximate. The quotient \<^verbatim>\<open>a / b\<close> raises
  on a zero divisor. The builtin \<^verbatim>\<open>round(x, 2)\<close> is a parameter \<open>round2\<close> of every
  function that calls it: which neighbour it picks when \<open>x\<close> lies half-way between two
  two-decimal numbers depends on the binary value of the float, so the model fixes only
  the contract \<open>rounds2\<close> (a two-decimal number at distance at most 0.005).
  \<open>round_half_even2\<close> is one such rounding.
\<close>

definition truediv :: "rat \<Rightarrow> rat \<Rightarrow> pyerr + rat" where
  "truediv a b = (if b = 0 then Inl ZeroDivisionError else Inr (a / b))"

definition rounds2 :: "(rat \<Rightarrow> rat) \<Rightarrow> bool" where
  "rounds2 round2 \<longleftrightarrow> (\<forall>x. (\<exists>k::int. round2 x = of_int k / 100) \<and> \<bar>round2 x - x\<bar> \<le> 1 / 200)"

definition round_half_even :: "rat \<Rightarrow> int" where
  "round_half_even y =
     (let f = \<lfloor>y\<rfloor>; r = y - of_int f
      in if r < 1 / 2 then f else if 1 / 2 < r then f + 1 else if even f then f else f + 1)"

definition round_half_even2 :: "rat \<Rightarrow> rat" where
  "round_half_even2 x = of_int (round_half_even (x * 100)) / 100"

text \<open>\<^verbatim>\<open>max(xs)\<close> raises \<^verbatim>\<open>ValueError\<close> on an empty sequence.\<close>

fun py_max :: "nat list \<Rightarrow> pyerr + nat" where
  "py_max [] = Inl ValueError"
| "py_max (x # xs) = Inr (fold max xs x)"

text \<open>
  \<^verbatim>\<open>str.lower\<close>, \<^verbatim>\<open>str.isspace\<close>, \<^verbatim>\<open>str.strip\<close> and \<^verbatim>\<open>str.split(sep)\<close> for a separator of
  one character.
\<close>

definition lower_char :: "char \<Rightarrow> char" where
  "lower_char c =
     (let n = (of_char c :: nat)
      in if (65 \<le> n \<and> n \<le> 90) \<or> (192 \<le> n \<and> n \<le> 222 \<and> n \<noteq> 215)
         then char_of (n + 32) else c)"

definition lower :: "string \<Rightarrow> string" where
  "lower s = map lower_char s"

definition isspace :: "char \<Rightarrow> bool" where
  "isspace c =
     (let n = (of_char c :: nat)
      in (9 \<le> n \<and> n \<le> 13) \<or> (28 \<le> n \<and> n \<le> 32) \<or> n = 133 \<or> n = 160)"

definition strip :: "string \<Rightarrow> string" where
  "strip s = rev (dropWhile isspace (rev (dropWhile isspace s)))"

fun split_on :: "char \<Rightarrow> string \<Rightarrow> string list" where
  "split_on sep [] = [[]]"
| "split_on sep (c # cs) =
     (if c = sep then [] # split_on sep cs
      else (case split_on sep cs of [] \<Rightarrow> [[c]] | w # ws \<Rightarrow> (c # w) # ws))"

text \<open>
  Dictionaries keep insertion order: assigning to a key that is present replaces its
  value in place, assigning to a new key appends it.
\<close>

type_synonym ('k, 'v) dict = "('k \<times> 'v) list"

definition keys :: "('k, 'v) dict \<Rightarrow> 'k list" where
  "keys d = map fst d"

definition dict_values :: "('k, 'v) dict \<Rightarrow> 'v list" where
  "dict_values d = map snd d"

definition dict_get :: "('k, 'v) dict \<Rightarrow> 'k \<Rightarrow> 'v \<Rightarrow> 'v" where
  "dict_get d k dflt = (case map_of d k of None \<Rightarrow> dflt | Some v \<Rightarrow> v)"

definition dict_set :: "('k, 'v) dict \<Rightarrow> 'k \<Rightarrow> 'v \<Rightarrow> ('k, 'v) dict" where
  "dict_set d k v =
     (if k \<in> set (keys d) then map (\<lambda>(k', v'). if k' = k then (k', v) else (k', v')) d
      else d @ [(k, v)])"

text \<open>\<^verbatim>\<open>collections.Counter(xs)\<close>: one pass over \<open>xs\<close>, bumping the count of each element.\<close>

fun Counter_loop :: "'k list \<Rightarrow> ('k, nat) dict \<Rightarrow> ('k, nat) dict" where
  "Counter_loop [] counts = counts"
| "Counter_loop (x # xs) counts = Counter_loop xs (dict_set counts x (dict_get counts x 0 + 1))"

definition Counter :: "'k list \<Rightarrow> ('k, nat) dict" where
  "Counter xs = Counter_loop xs []"

text \<open>
  \<^verbatim>\<open>sorted(xs, key=k, reverse=True)\<close>: CPython reverses the list, sorts it stably in
  ascending key order and reverses the result.
\<close>

definition sorted_reverse :: "('a \<Rightarrow> rat) \<Rightarrow> 'a list \<Rightarrow> 'a list" where
  "sorted_reverse k xs = rev (sort_key k (rev xs))"

section \<open>The role catalog and the skill vocabulary\<close>

type_synonym catalog = "(string, string list) dict"

definition role_skills :: catalog where
  "role_skills =
     [(''Data Scientist'', [''Python'', ''SQL'', ''Machine Learning'', ''Statistics'', ''Data Visualization'']),
      (''Full Stack Developer'', [''JavaScript'', ''React'', ''Node.js'', ''Databases'', ''APIs'']),
      (''Cybersecurity Analyst'', [''Networking'', ''Linux'', ''Threat Analysis'', ''SIEM'', ''Python'']),
      (''Cloud Engineer'', [''AWS'', ''Docker'', ''Kubernetes'', ''Terraform'', ''Linux'']),
      (''Product Manager'', [''Agile'', ''Communication'', ''Market Research'', ''Roadmapping'', ''SQL''])]"

text \<open>
  \<^verbatim>\<open>common_skills = list(set(sum(role_skills.values(), [])))\<close>. The order in which Python
  lists a set is not fixed; the model lists each skill once, and nothing below depends on
  the order.
\<close>

definition common_skills_of :: "catalog \<Rightarrow> string list" where
  "common_skills_of cat = remdups (concat (dict_values cat))"

definition common_skills :: "string list" where
  "common_skills = common_skills_of role_skills"

section \<open>Resume parsing\<close>

text \<open>
  What PyPDF2 makes of an uploaded file: \<^verbatim>\<open>PdfReader(file)\<close> raises or gives the pages,
  and \<^verbatim>\<open>page.extract_text() + "\n"\<close> raises or gives the page's text. The messages passed
  to \<^verbatim>\<open>st.error\<close> are the state threaded through the parsers.
\<close>

type_synonym pdf_file = "pyerr + (pyerr + string) list"
type_synonym docx_file = "pyerr + string list"

fun pdf_pages_loop :: "(pyerr + string) list \<Rightarrow> string \<Rightarrow> pyerr option \<times> string" where
  "pdf_pages_loop [] text = (None, text)"
| "pdf_pages_loop (page # pages) text =
     (case page of
        Inl e \<Rightarrow> (Some e, text)
      | Inr t \<Rightarrow> pdf_pages_loop pages (text @ t @ [CHR 0x0A]))"

definition parse_pdf :: "pdf_file \<Rightarrow> string list \<Rightarrow> (pyerr + string) \<times> string list" where
  "parse_pdf file errors =
     (let text = [] in
      case (case file of Inl e \<Rightarrow> (Some e, text) | Inr pages \<Rightarrow> pdf_pages_loop pages text) of
        (Some e, text') \<Rightarrow> (Inr text', errors @ [''PDF parsing error: '' @ exc_str e])
      | (None, text') \<Rightarrow> (Inr text', errors))"

fun docx_paras_loop :: "string list \<Rightarrow> string \<Rightarrow> string" where
  "docx_paras_loop [] text = text"
| "docx_paras_loop (para # paras) text = docx_paras_loop paras (text @ para @ [CHR 0x0A])"

definition parse_docx :: "docx_file \<Rightarrow> string list \<Rightarrow> (pyerr + string) \<times> string list" where
  "parse_docx file errors =
     (let text = [] in
      case file of
        Inl e \<Rightarrow> (Inr text, errors @ [''DOCX parsing error: '' @ exc_str e])
      | Inr paras \<Rightarrow> (Inr (docx_paras_loop paras text), errors))"

section \<open>Skill extraction\<close>

text \<open>
  \<open>nlp\<close> is the spaCy pipeline reduced to what the script reads from it: the list of
  token texts of a document. It is a parameter; \<open>blank_tokens\<close>, the words between
  blanks, stands in for it in the examples.
\<close>

definition blank_tokens :: "string \<Rightarrow> string list" where
  "blank_tokens text = filter (\<lambda>w. w \<noteq> []) (split_on CHR '' '' text)"

text \<open>
  \<open>extract_skills\<close>, statement by statement: \<open>skills_found_in\<close> is the comprehension
  \<^verbatim>\<open>[token.text for token in doc if token.text.lower() in [s.lower() for s in common_skills]]\<close>,
  \<open>max_count_of\<close> is \<^verbatim>\<open>max(counts.values()) if counts else 1\<close>, and \<open>conf_loop\<close> is the
  dictionary comprehension \<^verbatim>\<open>{skill: round(count / max_count, 2) for skill, count in counts.items()}\<close>,
  one assignment per item. The vocabulary is a parameter of \<open>extract_skills_in\<close>; the
  script's \<open>extract_skills\<close> reads the global \<open>common_skills\<close>.
\<close>

fun conf_loop :: "(rat \<Rightarrow> rat) \<Rightarrow> nat \<Rightarrow> (string, nat) dict \<Rightarrow> (string, rat) dict
    \<Rightarrow> pyerr + (string, rat) dict" where
  "conf_loop round2 max_count [] acc = Inr acc"
| "conf_loop round2 max_count ((skill, cnt) # rest) acc =
     (case truediv (of_nat cnt) (of_nat max_count) of
        Inl e \<Rightarrow> Inl e
      | Inr q \<Rightarrow> conf_loop round2 max_count rest (dict_set acc skill (round2 q)))"

definition max_count_of :: "(string, nat) dict \<Rightarrow> pyerr + nat" where
  "max_count_of counts = (if counts \<noteq> [] then py_max (dict_values counts) else Inr 1)"

definition skills_found_in :: "string list \<Rightarrow> string list \<Rightarrow> string list" where
  "skills_found_in vocabulary doc = filter (\<lambda>token. lower token \<in> set (map lower vocabulary)) doc"

definition extract_skills_in :: "string list \<Rightarrow> (rat \<Rightarrow> rat) \<Rightarrow> (string \<Rightarrow> string list) \<Rightarrow> string
    \<Rightarrow> pyerr + (string, rat) dict" where
  "extract_skills_in vocabulary round2 nlp text =
     (let doc = nlp text;
          skills_found = skills_found_in vocabulary doc;
          counts = Counter skills_found
      in case max_count_of counts of
           Inl e \<Rightarrow> Inl e
         | Inr max_count \<Rightarrow> conf_loop round2 max_count counts [])"

definition extract_skills :: "(rat \<Rightarrow> rat) \<Rightarrow> (string \<Rightarrow> string list) \<Rightarrow> string
    \<Rightarrow> pyerr + (string, rat) dict" where
  "extract_skills = extract_skills_in common_skills"

section \<open>The user's skills\<close>

text \<open>
  An upload carries its declared MIME type and what each reader makes of its bytes.
  A manual entry is read only when nothing was uploaded.
\<close>

record uploaded_file =
  ftype :: string
  as_pdf :: pdf_file
  as_docx :: docx_file
  decoded :: string

text \<open>
  \<open>manual_loop\<close> is the comprehension
  \<^verbatim>\<open>{s.strip(): 1.0 for s in manual_skills.split(",") if s.strip()}\<close>; \<open>read_resume\<close> is the
  chain of tests on \<^verbatim>\<open>uploaded_resume.type\<close>; \<open>user_skills_conf_of\<close> is the
  \<^verbatim>\<open>if uploaded_resume: ... elif manual_skills: ...\<close> that sets \<^verbatim>\<open>user_skills_conf\<close>.
\<close>

fun manual_loop :: "string list \<Rightarrow> (string, rat) dict \<Rightarrow> (string, rat) dict" where
  "manual_loop [] acc = acc"
| "manual_loop (s # rest) acc =
     (if strip s \<noteq> [] then manual_loop rest (dict_set acc (strip s) 1) else manual_loop rest acc)"

definition read_resume :: "uploaded_file \<Rightarrow> string list \<Rightarrow> (pyerr + string) \<times> string list" where
  "read_resume f errors =
     (if ftype f = ''application/pdf'' then parse_pdf (as_pdf f) errors
      else if ftype f = ''application/vnd.openxmlformats-officedocument.wordprocessingml.document''
        then parse_docx (as_docx f) errors
      else if ftype f = ''text/plain'' then (Inr (decoded f), errors)
      else (Inr [], errors))"

definition user_skills_conf_of :: "(rat \<Rightarrow> rat) \<Rightarrow> (string \<Rightarrow> string list) \<Rightarrow> uploaded_file option
    \<Rightarrow> string \<Rightarrow> pyerr + (string, rat) dict" where
  "user_skills_conf_of round2 nlp uploaded_resume manual_skills =
     (case uploaded_resume of
        Some f \<Rightarrow>
          (case fst (read_resume f []) of
             Inl e \<Rightarrow> Inl e
           | Inr resume_text \<Rightarrow>
               if resume_text \<noteq> [] then extract_skills round2 nlp resume_text else Inr [])
      | None \<Rightarrow>
          if manual_skills \<noteq> [] then Inr (manual_loop (split_on CHR '','' manual_skills) []) else Inr [])"

section \<open>Role scores, learning plan, radar series\<close>

record role_score =
  Role :: string
  Match :: rat
  Matched_Skills :: "string list"
  Missing_Skills :: "string list"

record plan_item =
  Week :: int
  Skill :: string
  Resources :: "string list"

text \<open>
  \<open>score_entry\<close> is the body of the loop over \<^verbatim>\<open>role_skills.items()\<close>:
  \<^verbatim>\<open>matched = [s for s in req_skills if s in user_skills]\<close>,
  \<^verbatim>\<open>score = round(len(matched)/len(req_skills)*100, 2) if req_skills else 0\<close>, and the entry with
  \<^verbatim>\<open>[s for s in req_skills if s not in matched]\<close> as missing skills. \<open>score_roles\<close> runs the
  loop and sorts by \<^verbatim>\<open>Match %\<close> with \<^verbatim>\<open>reverse=True\<close>. \<open>build_plan\<close> is the double loop over
  \<^verbatim>\<open>all_roles_scores[:5]\<close> and each entry's missing skills, appending one item each time.
\<close>

definition score_entry :: "(rat \<Rightarrow> rat) \<Rightarrow> string list \<Rightarrow> string \<Rightarrow> string list
    \<Rightarrow> pyerr + role_score" where
  "score_entry round2 user_skills role req_skills =
     (let matched = filter (\<lambda>s. s \<in> set user_skills) req_skills in
      case (if req_skills \<noteq> []
            then (case truediv (of_nat (length matched)) (of_nat (length req_skills)) of
                    Inl e \<Rightarrow> Inl e
                  | Inr q \<Rightarrow> Inr (round2 (q * 100)))
            else Inr 0) of
        Inl e \<Rightarrow> Inl e
      | Inr score \<Rightarrow>
          Inr \<lparr>Role = role, Match = score, Matched_Skills = matched,
               Missing_Skills = filter (\<lambda>s. s \<notin> set matched) req_skills\<rparr>)"

fun score_loop :: "(rat \<Rightarrow> rat) \<Rightarrow> string list \<Rightarrow> catalog \<Rightarrow> role_score list
    \<Rightarrow> pyerr + role_score list" where
  "score_loop round2 user_skills [] acc = Inr acc"
| "score_loop round2 user_skills ((role, req_skills) # rest) acc =
     (case score_entry round2 user_skills role req_skills of
        Inl e \<Rightarrow> Inl e
      | Inr entry \<Rightarrow> score_loop round2 user_skills rest (acc @ [entry]))"

definition score_roles :: "(rat \<Rightarrow> rat) \<Rightarrow> string list \<Rightarrow> catalog \<Rightarrow> pyerr + role_score list" where
  "score_roles round2 user_skills cat =
     (case score_loop round2 user_skills cat [] of
        Inl e \<Rightarrow> Inl e
      | Inr all_roles_scores \<Rightarrow> Inr (sorted_reverse Match all_roles_scores))"

definition plan_entry :: "string \<Rightarrow> plan_item" where
  "plan_entry skill =
     \<lparr>Week = 1, Skill = skill, Resources = [''Coursera/YouTube Course on '' @ skill]\<rparr>"

fun plan_skills_loop :: "string list \<Rightarrow> plan_item list \<Rightarrow> plan_item list" where
  "plan_skills_loop [] plan = plan"
| "plan_skills_loop (skill # rest) plan = plan_skills_loop rest (plan @ [plan_entry skill])"

fun plan_loop :: "role_score list \<Rightarrow> plan_item list \<Rightarrow> plan_item list" where
  "plan_loop [] plan = plan"
| "plan_loop (entry # rest) plan = plan_loop rest (plan_skills_loop (Missing_Skills entry) plan)"

definition build_plan :: "role_score list \<Rightarrow> plan_item list" where
  "build_plan all_roles_scores = plan_loop (take 5 all_roles_scores) []"

text \<open>
  The radar chart of one role. \<open>list_of_set\<close> stands for \<^verbatim>\<open>list(set(xs))\<close>, whose order
  Python does not fix.
\<close>

definition radar_user_vals :: "(string list \<Rightarrow> string list) \<Rightarrow> (string, rat) dict \<Rightarrow> catalog
    \<Rightarrow> role_score \<Rightarrow> rat list" where
  "radar_user_vals list_of_set user_skills_conf cat entry =
     (let req_skills = dict_get cat (Role entry) [];
          all_skills = list_of_set (keys user_skills_conf @ req_skills)
      in map (\<lambda>skill. dict_get user_skills_conf skill 0) all_skills)"

section \<open>The downloaded learning plan\<close>

text \<open>
  The download button offers \<^verbatim>\<open>pd.DataFrame(plan).to_json(orient='records', indent=2)\<close>.
  pandas is modelled by what it does to a list of dictionaries with the same keys: one
  JSON object per item, with the item's keys in their order (\<open>records\<close>), printed with
  two spaces of indentation per level, one member or element per line, no blank after a
  colon, and with the quote, the backslash, the slash, the control characters and the
  characters from 127 on escaped in strings (\<open>dumps\<close>).
\<close>

datatype json = JNull | JBool bool | JInt int | JString string
  | JArray "json list" | JObject "(string \<times> json) list"

definition item_json :: "plan_item \<Rightarrow> json" where
  "item_json item =
     JObject [(''Week'', JInt (Week item)), (''Skill'', JString (Skill item)),
              (''Resources'', JArray (map JString (Resources item)))]"

definition records :: "plan_item list \<Rightarrow> json" where
  "records plan = JArray (map item_json plan)"

definition hex_digit :: "nat \<Rightarrow> char" where
  "hex_digit n = (if n < 10 then char_of (48 + n) else char_of (87 + n))"

definition escape_char :: "char \<Rightarrow> string" where
  "escape_char c =
     (let n = (of_char c :: nat) in
      if n = 34 then [CHR 0x5C, CHR 0x22]
      else if n = 92 then [CHR 0x5C, CHR 0x5C]
      else if n = 47 then [CHR 0x5C, CHR ''/'']
      else if n = 8 then [CHR 0x5C, CHR ''b'']
      else if n = 12 then [CHR 0x5C, CHR ''f'']
      else if n = 10 then [CHR 0x5C, CHR ''n'']
      else if n = 13 then [CHR 0x5C, CHR ''r'']
      else if n = 9 then [CHR 0x5C, CHR ''t'']
      else if n < 32 \<or> 127 \<le> n
        then [CHR 0x5C, CHR ''u'', CHR ''0'', CHR ''0'', hex_digit (n div 16), hex_digit (n mod 16)]
      else [c])"

definition json_string :: "string \<Rightarrow> string" where
  "json_string s = [CHR 0x22] @ concat (map escape_char s) @ [CHR 0x22]"

function show_nat :: "nat \<Rightarrow> string" where
  "show_nat n = (if n < 10 then [char_of (48 + n)] else show_nat (n div 10) @ [char_of (48 + n mod 10)])"
  by pat_completeness auto
termination
  by (relation "measure id") auto

declare show_nat.simps [simp del]

definition show_int :: "int \<Rightarrow> string" where
  "show_int i = (if i < 0 then CHR ''-'' # show_nat (nat (- i)) else show_nat (nat i))"

definition spaces :: "nat \<Rightarrow> string" where
  "spaces n = replicate n CHR '' ''"

fun join_lines :: "string list \<Rightarrow> string" where
  "join_lines [] = []"
| "join_lines [x] = x"
| "join_lines (x # y # ys) = x @ [CHR '','', CHR 0x0A] @ join_lines (y # ys)"

fun dumps :: "nat \<Rightarrow> json \<Rightarrow> string" where
  "dumps ind JNull = ''null''"
| "dumps ind (JBool b) = (if b then ''true'' else ''false'')"
| "dumps ind (JInt i) = show_int i"
| "dumps ind (JString s) = json_string s"
| "dumps ind (JArray xs) =
     (if xs = [] then ''[]''
      else ''['' @ [CHR 0x0A]
        @ join_lines (map (\<lambda>x. spaces (2 * (ind + 1)) @ dumps (ind + 1) x) xs)
        @ [CHR 0x0A] @ spaces (2 * ind) @ '']'')"
| "dumps ind (JObject ms) =
     (if ms = [] then ''{}''
      else ''{'' @ [CHR 0x0A]
        @ join_lines (map (\<lambda>m. spaces (2 * (ind + 1)) @ json_string (fst m) @ '':''
                              @ dumps (ind + 1) (snd m)) ms)
        @ [CHR 0x0A] @ spaces (2 * ind) @ ''}'')"

definition to_json :: "plan_item list \<Rightarrow> string" where
  "to_json plan = dumps 0 (records plan)"

text \<open>
  Reading the download back: a JSON parser for integers, strings with their escapes,
  arrays, objects and the literals \<^verbatim>\<open>null\<close>, \<^verbatim>\<open>true\<close>, \<^verbatim>\<open>false\<close>, with any whitespace
  between tokens. Its recursion is bounded by a fuel that \<open>json_loads\<close> sets to the
  length of the text; running out of fuel is a parse failure.
\<close>

definition is_ws :: "char \<Rightarrow> bool" where
  "is_ws c \<longleftrightarrow> c = CHR '' '' \<or> c = CHR 0x09 \<or> c = CHR 0x0A \<or> c = CHR 0x0D"

definition skip_ws :: "string \<Rightarrow> string" where
  "skip_ws s = dropWhile is_ws s"

definition is_digit :: "char \<Rightarrow> bool" where
  "is_digit c \<longleftrightarrow> (48::nat) \<le> of_char c \<and> of_char c \<le> (57::nat)"

definition hex_val :: "char \<Rightarrow> nat option" where
  "hex_val c =
     (let n = (of_char c :: nat) in
      if 48 \<le> n \<and> n \<le> 57 then Some (n - 48)
      else if 97 \<le> n \<and> n \<le> 102 then Some (n - 87)
      else if 65 \<le> n \<and> n \<le> 70 then Some (n - 55)
      else None)"

definition decode_hex4 :: "char \<Rightarrow> char \<Rightarrow> char \<Rightarrow> char \<Rightarrow> char option" where
  "decode_hex4 h1 h2 h3 h4 =
     (case (hex_val h1, hex_val h2, hex_val h3, hex_val h4) of
        (Some a, Some b, Some c, Some d) \<Rightarrow>
          (let n = ((a * 16 + b) * 16 + c) * 16 + d in if n < 256 then Some (char_of n) else None)
      | _ \<Rightarrow> None)"

definition unescape :: "char \<Rightarrow> char option" where
  "unescape e =
     (if e = CHR 0x22 \<or> e = CHR 0x5C \<or> e = CHR ''/'' then Some e
      else if e = CHR ''b'' then Some (CHR 0x08)
      else if e = CHR ''f'' then Some (CHR 0x0C)
      else if e = CHR ''n'' then Some (CHR 0x0A)
      else if e = CHR ''r'' then Some (CHR 0x0D)
      else if e = CHR ''t'' then Some (CHR 0x09)
      else None)"

definition cons_result :: "char \<Rightarrow> (string \<times> string) option \<Rightarrow> (string \<times> string) option" where
  "cons_result c r = (case r of None \<Rightarrow> None | Some (s, rest) \<Rightarrow> Some (c # s, rest))"

fun parse_string_body :: "string \<Rightarrow> (string \<times> string) option" where
  "parse_string_body [] = None"
| "parse_string_body (c # cs) =
     (if c = CHR 0x22 then Some ([], cs)
      else if c = CHR 0x5C then
        (case cs of
           [] \<Rightarrow> None
         | e # rest \<Rightarrow>
             if e = CHR ''u'' then
               (case rest of
                  h1 # h2 # h3 # h4 # rest' \<Rightarrow>
                    (case decode_hex4 h1 h2 h3 h4 of
                       None \<Rightarrow> None
                     | Some ch \<Rightarrow> cons_result ch (parse_string_body rest'))
                | _ \<Rightarrow> None)
             else (case unescape e of
                     None \<Rightarrow> None
                   | Some ch \<Rightarrow> cons_result ch (parse_string_body rest)))
      else if (of_char c :: nat) < 32 then None
      else cons_result c (parse_string_body cs))"

fun parse_digits :: "nat \<Rightarrow> string \<Rightarrow> nat \<times> string" where
  "parse_digits acc [] = (acc, [])"
| "parse_digits acc (c # cs) =
     (if is_digit c then parse_digits (acc * 10 + (of_char c - 48)) cs else (acc, c # cs))"

definition parse_number :: "string \<Rightarrow> (json \<times> string) option" where
  "parse_number s =
     (case s of
        [] \<Rightarrow> None
      | c # cs \<Rightarrow>
          if c = CHR ''-'' then
            (case cs of
               [] \<Rightarrow> None
             | d # _ \<Rightarrow> if is_digit d
                 then (case parse_digits 0 cs of (n, rest) \<Rightarrow> Some (JInt (- int n), rest))
                 else None)
          else if is_digit c
            then (case parse_digits 0 s of (n, rest) \<Rightarrow> Some (JInt (int n), rest))
          else None)"

definition parse_literal :: "string \<Rightarrow> (json \<times> string) option" where
  "parse_literal s =
     (if take 4 s = ''null'' then Some (JNull, drop 4 s)
      else if take 4 s = ''true'' then Some (JBool True, drop 4 s)
      else if take 5 s = ''false'' then Some (JBool False, drop 5 s)
      else parse_number s)"

fun parse_value :: "nat \<Rightarrow> string \<Rightarrow> (json \<times> string) option"
  and parse_elements :: "nat \<Rightarrow> string \<Rightarrow> (json list \<times> string) option"
  and parse_members :: "nat \<Rightarrow> string \<Rightarrow> ((string \<times> json) list \<times> string) option" where
  "parse_value 0 s = None"
| "parse_value (Suc n) s =
     (case skip_ws s of
        [] \<Rightarrow> None
      | c # cs \<Rightarrow>
          if c = CHR 0x22 then
            (case parse_string_body cs of None \<Rightarrow> None | Some (str, rest) \<Rightarrow> Some (JString str, rest))
          else if c = CHR ''['' then
            (case skip_ws cs of
               [] \<Rightarrow> None
             | d # rest \<Rightarrow>
                 if d = CHR '']'' then Some (JArray [], rest)
                 else (case parse_elements n cs of
                         None \<Rightarrow> None
                       | Some (xs, rest') \<Rightarrow> Some (JArray xs, rest')))
          else if c = CHR ''{'' then
            (case skip_ws cs of
               [] \<Rightarrow> None
             | d # rest \<Rightarrow>
                 if d = CHR ''}'' then Some (JObject [], rest)
                 else (case parse_members n cs of
                         None \<Rightarrow> None
                       | Some (ms, rest') \<Rightarrow> Some (JObject ms, rest')))
          else parse_literal (c # cs))"
| "parse_elements 0 s = None"
| "parse_elements (Suc n) s =
     (case parse_value n s of
        None \<Rightarrow> None
      | Some (x, rest) \<Rightarrow>
          (case skip_ws rest of
             [] \<Rightarrow> None
           | d # rest' \<Rightarrow>
               if d = CHR '','' then
                 (case parse_elements n rest' of
                    None \<Rightarrow> None
                  | Some (xs, rest'') \<Rightarrow> Some (x # xs, rest''))
               else if d = CHR '']'' then Some ([x], rest')
               else None))"
| "parse_members 0 s = None"
| "parse_members (Suc n) s =
     (case skip_ws s of
        [] \<Rightarrow> None
      | q # cs \<Rightarrow>
          if q = CHR 0x22 then
            (case parse_string_body cs of
               None \<Rightarrow> None
             | Some (k, rest) \<Rightarrow>
                 (case skip_ws rest of
                    [] \<Rightarrow> None
                  | colon # rest1 \<Rightarrow>
                      if colon = CHR '':'' then
                        (case parse_value n rest1 of
                           None \<Rightarrow> None
                         | Some (v, rest2) \<Rightarrow>
                             (case skip_ws rest2 of
                                [] \<Rightarrow> None
                              | d # rest3 \<Rightarrow>
                                  if d = CHR '','' then
                                    (case parse_members n rest3 of
                                       None \<Rightarrow> None
                                     | Some (ms, rest4) \<Rightarrow> Some ((k, v) # ms, rest4))
                                  else if d = CHR ''}'' then Some ([(k, v)], rest3)
                                  else None))
                      else None))
          else None)"

definition json_loads :: "string \<Rightarrow> json option" where
  "json_loads s =
     (case parse_value (length s) s of
        None \<Rightarrow> None
      | Some (v, rest) \<Rightarrow> if skip_ws rest = [] then Some v else None)"

section \<open>The specification's wording\<close>

text \<open>
  The match percentage before rounding, as the specification words it: 100 times the
  number of required skills the user has, divided by the number of required skills, and
  0 for a role that requires nothing.
\<close>

definition exact_match_percentage :: "string list \<Rightarrow> string list \<Rightarrow> rat" where
  "exact_match_percentage user_skills req_skills =
     (if 0 < length req_skills
      then 100 * of_nat (length (filter (\<lambda>s. s \<in> set user_skills) req_skills))
             / of_nat (length req_skills)
      else 0)"

text \<open>
  The pages of a PDF that are read before the first failure, and that failure if there is
  one (the reader's own, or the first page whose extraction raises).
\<close>

definition pdf_pages_read :: "pdf_file \<Rightarrow> string list" where
  "pdf_pages_read file =
     (case file of Inl e \<Rightarrow> [] | Inr pages \<Rightarrow> map projr (takeWhile (\<lambda>page. \<not> isl page) pages))"

definition pdf_first_failure :: "pdf_file \<Rightarrow> pyerr option" where
  "pdf_first_failure file =
     (case file of
        Inl e \<Rightarrow> Some e
      | Inr pages \<Rightarrow> (case dropWhile (\<lambda>page. \<not> isl page) pages of [] \<Rightarrow> None | page # _ \<Rightarrow> Some (projl page)))"

section \<open>Measures used in the proofs\<close>

text \<open>
  The fuel that parsing a value takes at most, the texts that may follow a number, the
  property proved of every value by induction, and the characters a value can start with.
\<close>

fun need :: "json \<Rightarrow> nat" where
  "need JNull = 1"
| "need (JBool b) = 1"
| "need (JInt i) = 1"
| "need (JString s) = 1"
| "need (JArray xs) = Suc (sum_list (map (\<lambda>x. Suc (need x)) xs))"
| "need (JObject ms) = Suc (sum_list (map (\<lambda>m. Suc (need (snd m))) ms))"

definition follow_ok :: "string \<Rightarrow> bool" where
  "follow_ok rest = (case rest of [] \<Rightarrow> True | c # _ \<Rightarrow> \<not> is_digit c)"

definition roundtrips :: "nat \<Rightarrow> json \<Rightarrow> bool" where
  "roundtrips ind v \<longleftrightarrow>
     (\<forall>fuel pre rest. need v \<le> fuel \<longrightarrow> (\<forall>c\<in>set pre. is_ws c) \<longrightarrow> follow_ok rest \<longrightarrow>
        parse_value fuel (pre @ dumps ind v @ rest) = Some (v, rest))"

definition opens_value :: "char \<Rightarrow> bool" where
  "opens_value c \<longleftrightarrow> \<not> is_ws c \<and> c \<noteq> CHR '']'' \<and> c \<noteq> CHR ''}''"

section \<open>Auxiliary facts\<close>

subsection \<open>Rounding to two decimals\<close>

lemma rounds2_two_decimal: "rounds2 r \<Longrightarrow> r (of_int k / 100) = of_int k / 100"
proof -
  assume h: "rounds2 r"
  obtain j :: int where j: "r (of_int k / 100) = of_int j / 100"
    using h unfolding rounds2_def by blast
  have "\<bar>r (of_int k / 100) - of_int k / 100\<bar> \<le> 1 / 200"
    using h unfolding rounds2_def by blast
  then have "\<bar>(of_int j :: rat) - of_int k\<bar> \<le> 1 / 2"
    unfolding j by (simp add: field_simps abs_le_iff)
  then have "\<bar>of_int (j - k) :: rat\<bar> < 1" by simp
  then have "\<bar>j - k\<bar> < 1" 
    by (metis of_int_abs of_int_less_1_iff)
  then have "j = k" by simp
  then show ?thesis using j by simp
qed

lemma rounds2_zero: "rounds2 r \<Longrightarrow> r 0 = 0"
  using rounds2_two_decimal [of r 0] by simp

lemma rounds2_one: "rounds2 r \<Longrightarrow> r 1 = 1"
  using rounds2_two_decimal [of r 100] by simp

lemma rounds2_unit:
  assumes h: "rounds2 r" and x: "0 \<le> x" "x \<le> 1"
  shows "0 \<le> r x \<and> r x \<le> 1"
proof -
  obtain j :: int where j: "r x = of_int j / 100"
    using h unfolding rounds2_def by blast
  have d: "\<bar>r x - x\<bar> \<le> 1 / 200"
    using h unfolding rounds2_def by blast
  have lo: "- (1 / 200) \<le> r x - x" and hi: "r x - x \<le> 1 / 200"
    using d by linarith+
  have "(of_int j :: rat) / 100 \<ge> - (1 / 200)" using lo x unfolding j by linarith
  then have "(of_int j :: rat) \<ge> - 1 / 2" by simp
  then have "(of_int j :: rat) > of_int (-1)" by simp
  then have j0: "j > -1" using of_int_less_iff by blast
  have "(of_int j :: rat) / 100 \<le> 1 + 1 / 200" using hi x unfolding j by linarith
  then have "(of_int j :: rat) \<le> 100 + 1 / 2" by simp
  then have "(of_int j :: rat) < of_int 101" by simp
  then have j1: "j < 101" using of_int_less_iff by blast
  have "0 \<le> (of_int j :: rat)" using j0 by simp
  moreover have "(of_int j :: rat) \<le> 100" using j1 by simp
  ultimately show ?thesis unfolding j by simp
qed

lemma round_half_even_near: "\<bar>of_int (round_half_even y) - y\<bar> \<le> 1 / 2"
proof -
  have a: "of_int \<lfloor>y\<rfloor> \<le> y" by simp
  have b: "y < of_int \<lfloor>y\<rfloor> + 1" by linarith
  show ?thesis
    using a b unfolding round_half_even_def Let_def by (auto simp: abs_le_iff)
qed

lemma round_half_even2_rounds2: "rounds2 round_half_even2"
  unfolding rounds2_def
proof (intro allI conjI)
  fix x :: rat
  show "\<exists>k::int. round_half_even2 x = of_int k / 100"
    unfolding round_half_even2_def by blast
  have "\<bar>of_int (round_half_even (x * 100)) - x * 100\<bar> \<le> 1 / 2"
    by (rule round_half_even_near)
  then show "\<bar>round_half_even2 x - x\<bar> \<le> 1 / 200"
    unfolding round_half_even2_def by (simp add: field_simps abs_le_iff)
qed

subsection \<open>Dictionaries\<close>

lemma keys_dict_set:
  "keys (dict_set d k v) = (if k \<in> set (keys d) then keys d else keys d @ [k])"
  by (auto simp: dict_set_def keys_def split: prod.splits)

lemma set_keys_dict_set: "set (keys (dict_set d k v)) = insert k (set (keys d))"
  by (auto simp: keys_dict_set)

lemma distinct_keys_dict_set: "distinct (keys d) \<Longrightarrow> distinct (keys (dict_set d k v))"
  by (simp add: keys_dict_set)

lemma dict_set_fresh: "k \<notin> set (keys d) \<Longrightarrow> dict_set d k v = d @ [(k, v)]"
  by (simp add: dict_set_def)

lemma set_values_dict_set: "set (dict_values (dict_set d k v)) \<subseteq> insert v (set (dict_values d))"
proof (cases "k \<in> set (keys d)")
  case True
  have "snd ` (\<lambda>(k', v'). if k' = k then (k', v) else (k', v')) ` set d \<subseteq> insert v (snd ` set d)"
    by force
  then show ?thesis using True by (simp add: dict_set_def dict_values_def image_image)
next
  case False
  then show ?thesis by (auto simp: dict_set_def dict_values_def)
qed

lemma map_of_replace:
  "map_of (map (\<lambda>(k', v'). if k' = k then (k', v) else (k', v')) d) x =
     (if x = k \<and> k \<in> fst ` set d then Some v else map_of d x)"
proof (induction d)
  case Nil
  show ?case by simp
next
  case (Cons a d)
  obtain k' v' where a: "a = (k', v')" by (cases a)
  show ?case using Cons by (cases "x = k") (simp_all add: a)
qed

lemma map_of_dict_set: "map_of (dict_set d k v) x = (if x = k then Some v else map_of d x)"
proof (cases "k \<in> set (keys d)")
  case False
  then have "map_of d k = None" by (simp add: keys_def map_of_eq_None_iff)
  then show ?thesis using False
    by (auto simp: dict_set_def map_add_def split: option.splits)
next
  case True
  then show ?thesis by (simp add: dict_set_def keys_def map_of_replace)
qed

lemma dict_get_dict_set:
  "dict_get (dict_set d k v) k' dflt = (if k' = k then v else dict_get d k' dflt)"
  by (simp add: dict_get_def map_of_dict_set)

subsection \<open>Counter\<close>

lemma Counter_loop_get:
  "dict_get (Counter_loop xs counts) k 0 = dict_get counts k 0 + count_list xs k"
  by (induction xs arbitrary: counts) (auto simp: dict_get_dict_set)

lemma Counter_loop_keys: "set (keys (Counter_loop xs counts)) = set (keys counts) \<union> set xs"
  by (induction xs arbitrary: counts) (auto simp: set_keys_dict_set)

lemma Counter_loop_distinct: "distinct (keys counts) \<Longrightarrow> distinct (keys (Counter_loop xs counts))"
  by (induction xs arbitrary: counts) (auto simp: distinct_keys_dict_set)

lemma Counter_keys: "set (keys (Counter xs)) = set xs"
  using Counter_loop_keys [of xs "[]"] by (simp add: Counter_def keys_def)

lemma Counter_distinct: "distinct (keys (Counter xs))"
  using Counter_loop_distinct [of "[]" xs] by (simp add: Counter_def keys_def)

lemma Counter_get: "dict_get (Counter xs) k 0 = count_list xs k"
  using Counter_loop_get [of xs "[]" k] by (simp add: Counter_def dict_get_def)

lemma dict_get_member: "distinct (keys d) \<Longrightarrow> (k, v) \<in> set d \<Longrightarrow> dict_get d k dflt = v"
  by (simp add: dict_get_def keys_def)

lemma Counter_entry: "(k, c) \<in> set (Counter xs) \<Longrightarrow> c = count_list xs k \<and> k \<in> set xs"
proof -
  assume h: "(k, c) \<in> set (Counter xs)"
  then have "dict_get (Counter xs) k 0 = c" by (simp add: dict_get_member Counter_distinct)
  moreover have "k \<in> set (keys (Counter xs))" using h by (force simp: keys_def)
  ultimately show ?thesis by (simp add: Counter_get Counter_keys)
qed

lemma Counter_empty: "Counter xs = [] \<longleftrightarrow> xs = []"
proof -
  have "Counter xs = [] \<longleftrightarrow> set (keys (Counter xs)) = {}" by (simp add: keys_def)
  then show ?thesis by (simp add: Counter_keys)
qed

subsection \<open>max\<close>

lemma fold_max_ge: "x \<le> fold max xs (x::nat)"
  by (induction xs arbitrary: x) (auto intro: order_trans [OF max.cobounded2])

lemma fold_max_upper: "y \<in> set xs \<Longrightarrow> y \<le> fold max xs (x::nat)"
  by (induction xs arbitrary: x) (auto intro: order_trans [OF max.cobounded1 fold_max_ge])

lemma fold_max_mem: "fold max xs (x::nat) \<in> insert x (set xs)"
  by (induction xs arbitrary: x) (auto simp: max_def)

lemma py_max_Inr: "xs \<noteq> [] \<Longrightarrow> \<exists>m. py_max xs = Inr m \<and> m \<in> set xs \<and> (\<forall>y\<in>set xs. y \<le> m)"
proof (cases xs)
  case Nil
  assume "xs \<noteq> []" then show ?thesis using Nil by simp
next
  case (Cons x ys)
  have "fold max ys x \<in> set xs" using fold_max_mem [of ys x] Cons by simp
  moreover have "\<forall>y\<in>set xs. y \<le> fold max ys x"
    using fold_max_ge [of x ys] fold_max_upper [of _ ys x] Cons by auto
  ultimately show ?thesis using Cons by simp
qed

subsection \<open>The confidence loop\<close>

lemma keys_append: "keys (d @ e) = keys d @ keys e"
  by (simp add: keys_def)

lemma conf_loop_Inr:
  assumes "max_count \<noteq> 0"
  shows "distinct (keys counts) \<Longrightarrow> set (keys counts) \<inter> set (keys acc) = {} \<Longrightarrow>
    conf_loop round2 max_count counts acc =
      Inr (acc @ map (\<lambda>(skill, cnt). (skill, round2 (of_nat cnt / of_nat max_count))) counts)"
proof (induction counts arbitrary: acc)
  case Nil
  show ?case by simp
next
  case (Cons a counts)
  obtain skill cnt where a: "a = (skill, cnt)" by (cases a)
  have fresh: "skill \<notin> set (keys acc)" using Cons.prems(2) by (auto simp: a keys_def)
  have d: "distinct (keys counts)" using Cons.prems(1) by (simp add: keys_def)
  have disj: "set (keys counts) \<inter> set (keys (acc @ [(skill, round2 (of_nat cnt / of_nat max_count))])) = {}"
    using Cons.prems by (auto simp: a keys_def)
  show ?case
    using assms Cons.IH [OF d disj] by (simp add: a truediv_def dict_set_fresh [OF fresh])
qed

lemma max_count_of_Counter:
  "\<exists>mx. max_count_of (Counter xs) = Inr mx \<and> 1 \<le> mx \<and>
     (xs \<noteq> [] \<longrightarrow> (\<exists>k\<in>set xs. mx = count_list xs k) \<and> (\<forall>t. count_list xs t \<le> mx))"
proof (cases "xs = []")
  case True
  then show ?thesis by (simp add: max_count_of_def Counter_def)
next
  case False
  then have ne: "dict_values (Counter xs) \<noteq> []" by (simp add: dict_values_def Counter_empty)
  obtain mx where mx: "py_max (dict_values (Counter xs)) = Inr mx"
    "mx \<in> set (dict_values (Counter xs))" "\<forall>y\<in>set (dict_values (Counter xs)). y \<le> mx"
    using py_max_Inr [OF ne] by blast
  obtain k where k: "(k, mx) \<in> set (Counter xs)" using mx(2) by (auto simp: dict_values_def)
  then have kmx: "mx = count_list xs k" "k \<in> set xs" using Counter_entry [OF k] by simp_all
  have upper: "count_list xs t \<le> mx" for t
  proof (cases "t \<in> set xs")
    case True
    then have "t \<in> set (keys (Counter xs))" by (simp add: Counter_keys)
    then obtain c where c: "(t, c) \<in> set (Counter xs)" by (auto simp: keys_def)
    have "c = count_list xs t" using Counter_entry [OF c] by simp
    moreover have "c \<le> mx" using mx(3) c by (force simp: dict_values_def)
    ultimately show ?thesis by simp
  next
    case False
    then show ?thesis by (simp add: count_list_0_iff)
  qed
  have "count_list xs k \<noteq> 0" using kmx(2) by (simp add: count_list_0_iff)
  then have "1 \<le> mx" using kmx(1) by simp
  then show ?thesis using mx(1) False kmx upper
    by (auto simp: max_count_of_def Counter_empty)
qed

lemma extract_skills_in_eq:
  "\<exists>mx. max_count_of (Counter (skills_found_in vocabulary (nlp text))) = Inr mx \<and> 1 \<le> mx \<and>
     extract_skills_in vocabulary round2 nlp text =
       Inr (map (\<lambda>(skill, cnt). (skill, round2 (of_nat cnt / of_nat mx)))
              (Counter (skills_found_in vocabulary (nlp text))))"
proof -
  obtain mx where mx: "max_count_of (Counter (skills_found_in vocabulary (nlp text))) = Inr mx" "1 \<le> mx"
    using max_count_of_Counter by blast
  have "conf_loop round2 mx (Counter (skills_found_in vocabulary (nlp text))) [] =
      Inr ([] @ map (\<lambda>(skill, cnt). (skill, round2 (of_nat cnt / of_nat mx)))
              (Counter (skills_found_in vocabulary (nlp text))))"
    using mx(2) Counter_distinct by (intro conf_loop_Inr) (simp_all add: keys_def)
  then show ?thesis using mx by (simp add: extract_skills_in_def Let_def)
qed

lemma Counter_member: "k \<in> set xs \<Longrightarrow> (k, count_list xs k) \<in> set (Counter xs)"
proof -
  assume "k \<in> set xs"
  then have "k \<in> set (keys (Counter xs))" by (simp add: Counter_keys)
  then obtain c where c: "(k, c) \<in> set (Counter xs)" by (auto simp: keys_def)
  then show ?thesis using Counter_entry [OF c] by simp
qed

lemma extract_skills_in_shape:
  assumes r: "rounds2 round2"
  shows "\<exists>conf mx. extract_skills_in vocabulary round2 nlp text = Inr conf
     \<and> max_count_of (Counter (skills_found_in vocabulary (nlp text))) = Inr mx \<and> 1 \<le> mx
     \<and> keys conf = keys (Counter (skills_found_in vocabulary (nlp text)))
     \<and> (\<forall>v\<in>set (dict_values conf). 0 \<le> v \<and> v \<le> 1)
     \<and> (\<forall>k\<in>set (skills_found_in vocabulary (nlp text)).
           count_list (skills_found_in vocabulary (nlp text)) k = mx \<longrightarrow> (k, 1) \<in> set conf)"
proof -
  define found where "found = skills_found_in vocabulary (nlp text)"
  obtain mx where mx: "max_count_of (Counter found) = Inr mx" "1 \<le> mx"
    "found \<noteq> [] \<longrightarrow> (\<exists>k\<in>set found. mx = count_list found k) \<and> (\<forall>t. count_list found t \<le> mx)"
    using max_count_of_Counter [of found] by blast
  define conf where
    "conf = map (\<lambda>(skill, cnt). (skill, round2 (of_nat cnt / of_nat mx))) (Counter found)"
  obtain mx' where mx': "max_count_of (Counter found) = Inr mx'"
    "extract_skills_in vocabulary round2 nlp text =
       Inr (map (\<lambda>(skill, cnt). (skill, round2 (of_nat cnt / of_nat mx'))) (Counter found))"
    using extract_skills_in_eq [of vocabulary nlp "text" round2] unfolding found_def by blast
  have e: "extract_skills_in vocabulary round2 nlp text = Inr conf"
    using mx(1) mx' by (simp add: conf_def)
  have k: "keys conf = keys (Counter found)"
    by (simp add: conf_def keys_def case_prod_beta)
  have v: "0 \<le> v \<and> v \<le> 1" if vin: "v \<in> set (dict_values conf)" for v
  proof -
    obtain p where p: "p \<in> set (Counter found)" "v = round2 (of_nat (snd p) / of_nat mx)"
      using vin by (auto simp: conf_def dict_values_def case_prod_beta)
    obtain s c where "p = (s, c)" by (cases p)
    then have sc: "(s, c) \<in> set (Counter found)" "v = round2 (of_nat c / of_nat mx)"
      using p by simp_all
    have c: "c = count_list found s" "s \<in> set found" using Counter_entry [OF sc(1)] by simp_all
    then have "found \<noteq> []" by auto
    then have "c \<le> mx" using mx(3) c(1) by simp
    then have "(of_nat c :: rat) \<le> of_nat mx" by simp
    then have "(of_nat c :: rat) / of_nat mx \<le> 1" using mx(2) by (simp add: divide_le_eq_1)
    moreover have "0 \<le> (of_nat c :: rat) / of_nat mx" by simp
    ultimately show ?thesis unfolding sc(2) by (rule rounds2_unit [OF r, rotated])
  qed
  have m: "(k, 1) \<in> set conf" if "k \<in> set found" "count_list found k = mx" for k
  proof -
    have "(k, mx) \<in> set (Counter found)" using Counter_member [OF that(1)] that(2) by simp
    then have "(k, round2 (of_nat mx / of_nat mx)) \<in> set conf"
      unfolding conf_def by force
    moreover have "(of_nat mx :: rat) / of_nat mx = 1" using mx(2) by simp
    ultimately show ?thesis by (simp add: rounds2_one [OF r])
  qed
  show ?thesis using e mx(1,2) k v m unfolding found_def by blast
qed

lemma set_common_skills_of:
  "set (common_skills_of cat) = {s. \<exists>role req. (role, req) \<in> set cat \<and> s \<in> set req}"
  by (force simp: common_skills_of_def dict_values_def)

subsection \<open>The scoring loop\<close>

lemma score_entry_Inr:
  "score_entry round2 user_skills role req_skills =
     Inr \<lparr>Role = role,
          Match = (if req_skills = [] then 0
                   else round2 (exact_match_percentage user_skills req_skills)),
          Matched_Skills = filter (\<lambda>s. s \<in> set user_skills) req_skills,
          Missing_Skills = filter (\<lambda>s. s \<notin> set user_skills) req_skills\<rparr>"
proof -
  have m: "filter (\<lambda>s. s \<in> set req_skills \<longrightarrow> s \<notin> set user_skills) req_skills
      = filter (\<lambda>s. s \<notin> set user_skills) req_skills"
    by (rule filter_cong) auto
  show ?thesis
    by (simp add: score_entry_def truediv_def exact_match_percentage_def m Let_def mult.commute)
qed

lemma score_loop_Inr:
  "score_loop round2 user_skills cat acc =
     Inr (acc @ map (\<lambda>(role, req_skills). projr (score_entry round2 user_skills role req_skills)) cat)"
proof (induction cat arbitrary: acc)
  case Nil
  show ?case by simp
next
  case (Cons a cat)
  obtain role req_skills where a: "a = (role, req_skills)" by (cases a)
  show ?case by (simp add: a Cons.IH score_entry_Inr)
qed

lemma score_roles_Inr:
  "score_roles round2 user_skills cat =
     Inr (sorted_reverse Match
            (map (\<lambda>(role, req_skills). projr (score_entry round2 user_skills role req_skills)) cat))"
  by (simp add: score_roles_def score_loop_Inr)

lemma mset_sorted_reverse: "mset (sorted_reverse k xs) = mset xs"
  by (simp add: sorted_reverse_def)

lemma set_sorted_reverse: "set (sorted_reverse k xs) = set xs"
  by (simp add: sorted_reverse_def)

lemma sorted_reverse_descending: "sorted_wrt (\<lambda>a b. k b \<le> k a) (sorted_reverse k xs)"
proof -
  have "sorted (map k (sort_key k (rev xs)))" by simp
  then have "sorted_wrt (\<lambda>a b. k a \<le> k b) (sort_key k (rev xs))"
    by (simp add: sorted_wrt_map)
  then show ?thesis by (simp add: sorted_reverse_def sorted_wrt_rev)
qed

lemma sorted_reverse_stable:
  "filter (\<lambda>e. k e = p) (sorted_reverse k xs) = filter (\<lambda>e. k e = p) xs"
proof -
  have "filter (\<lambda>e. k e = p) (sorted_reverse k xs) = rev (filter (\<lambda>e. k e = p) (sort_key k (rev xs)))"
    by (simp add: sorted_reverse_def rev_filter)
  also have "\<dots> = rev (filter (\<lambda>e. k e = p) (rev xs))" by (simp only: sort_key_stable)
  also have "\<dots> = filter (\<lambda>e. k e = p) xs" by (simp add: rev_filter)
  finally show ?thesis .
qed

subsection \<open>The planner's loops\<close>

lemma plan_skills_loop_eq: "plan_skills_loop skills plan = plan @ map plan_entry skills"
  by (induction skills arbitrary: plan) simp_all

lemma plan_loop_eq:
  "plan_loop entries plan = plan @ concat (map (\<lambda>entry. map plan_entry (Missing_Skills entry)) entries)"
  by (induction entries arbitrary: plan) (simp_all add: plan_skills_loop_eq)

subsection \<open>The page loop\<close>

lemma pdf_pages_loop_eq:
  "pdf_pages_loop pages text =
     (case dropWhile (\<lambda>page. \<not> isl page) pages of [] \<Rightarrow> None | page # _ \<Rightarrow> Some (projl page),
      text @ concat (map (\<lambda>t. t @ [CHR 0x0A]) (map projr (takeWhile (\<lambda>page. \<not> isl page) pages))))"
proof (induction pages arbitrary: "text")
  case Nil
  show ?case by simp
next
  case (Cons page pages)
  show ?case by (cases page) (simp_all add: Cons.IH)
qed

subsection \<open>Stripping and the manual entry\<close>

lemma rev_split_while:
  "t = rev (dropWhile P (rev t)) @ rev (takeWhile P (rev t))"
proof -
  have "rev (takeWhile P (rev t) @ dropWhile P (rev t)) =
      rev (dropWhile P (rev t)) @ rev (takeWhile P (rev t))"
    by (rule rev_append)
  moreover have "takeWhile P (rev t) @ dropWhile P (rev t) = rev t"
    by (rule takeWhile_dropWhile_id)
  ultimately have "rev (rev t) = rev (dropWhile P (rev t)) @ rev (takeWhile P (rev t))"
    by (simp only:)
  then show ?thesis by (simp only: rev_rev_ident)
qed

lemma strip_decompose:
  "\<exists>pre post. s = pre @ strip s @ post \<and> (\<forall>c\<in>set pre. isspace c) \<and> (\<forall>c\<in>set post. isspace c)"
proof -
  define t where "t = dropWhile isspace s"
  have s: "s = takeWhile isspace s @ t" by (simp add: t_def)
  have t: "t = strip s @ rev (takeWhile isspace (rev t))"
    using rev_split_while [of t isspace] by (simp only: strip_def t_def)
  have a: "\<forall>c\<in>set (takeWhile isspace s). isspace c" by (auto dest: set_takeWhileD)
  have b: "\<forall>c\<in>set (rev (takeWhile isspace (rev t))). isspace c" by (auto dest: set_takeWhileD)
  have "s = takeWhile isspace s @ strip s @ rev (takeWhile isspace (rev t))"
    using s t by simp
  then show ?thesis using a b by blast
qed

lemma strip_ends: "strip s \<noteq> [] \<Longrightarrow> \<not> isspace (hd (strip s)) \<and> \<not> isspace (last (strip s))"
proof -
  assume ne: "strip s \<noteq> []"
  define t where "t = dropWhile isspace s"
  define u where "u = dropWhile isspace (rev t)"
  have st: "strip s = rev u" by (simp add: strip_def t_def u_def)
  have une: "u \<noteq> []" using ne st by simp
  have "\<not> isspace (hd u)" using une unfolding u_def by (rule hd_dropWhile)
  then have l: "\<not> isspace (last (strip s))" using une by (simp add: st last_rev)
  have t: "t = rev u @ rev (takeWhile isspace (rev t))"
    using rev_split_while [of t isspace] by (simp only: u_def)
  then have tne: "t \<noteq> []" using une by auto
  have "hd t = hd (rev u)" using t une by (metis hd_append2 rev_is_Nil_conv)
  moreover have "\<not> isspace (hd t)" using tne unfolding t_def by (rule hd_dropWhile)
  ultimately show ?thesis using l by (simp add: st)
qed

lemma manual_loop_keys:
  "set (keys (manual_loop xs acc)) = set (keys acc) \<union> {strip s | s. s \<in> set xs \<and> strip s \<noteq> []}"
  by (induction xs arbitrary: acc) (auto simp: set_keys_dict_set)

lemma manual_loop_distinct: "distinct (keys acc) \<Longrightarrow> distinct (keys (manual_loop xs acc))"
  by (induction xs arbitrary: acc) (auto simp: distinct_keys_dict_set)

lemma manual_loop_values:
  "set (dict_values (manual_loop xs acc)) \<subseteq> insert 1 (set (dict_values acc))"
proof (induction xs arbitrary: acc)
  case Nil
  show ?case by auto
next
  case (Cons s xs)
  show ?case
  proof (cases "strip s = []")
    case True
    then show ?thesis using Cons.IH [of acc] by simp
  next
    case False
    have "set (dict_values (manual_loop xs (dict_set acc (strip s) 1)))
        \<subseteq> insert 1 (set (dict_values (dict_set acc (strip s) 1)))"
      by (rule Cons.IH)
    also have "\<dots> \<subseteq> insert 1 (set (dict_values acc))"
      using set_values_dict_set [of acc "strip s" 1] by auto
    finally show ?thesis using False by simp
  qed
qed

lemma sorted_reverse_const:
  assumes "\<forall>e\<in>set xs. k e = p"
  shows "sorted_reverse k xs = xs"
proof -
  have "filter (\<lambda>e. k e = p) (sorted_reverse k xs) = filter (\<lambda>e. k e = p) xs"
    by (rule sorted_reverse_stable)
  moreover have "filter (\<lambda>e. k e = p) xs = xs" using assms by (simp add: filter_id_conv)
  moreover have "filter (\<lambda>e. k e = p) (sorted_reverse k xs) = sorted_reverse k xs"
    using assms by (simp add: filter_id_conv set_sorted_reverse)
  ultimately show ?thesis by simp
qed

lemma build_plan_concat:
  "build_plan xs = concat (map (\<lambda>entry. map plan_entry (Missing_Skills entry)) (take 5 xs))"
  by (simp add: build_plan_def plan_loop_eq)

section \<open>The JSON text reads back\<close>

subsection \<open>Strings\<close>

lemma hex_val_hex_digit: "d < 16 \<Longrightarrow> hex_val (hex_digit d) = Some d"
  by (auto simp: hex_val_def hex_digit_def Let_def)

lemma decode_hex4_byte:
  "decode_hex4 (CHR ''0'') (CHR ''0'') (hex_digit (of_char c div 16)) (hex_digit (of_char c mod 16)) = Some c"
proof -
  have n: "(of_char c :: nat) < 256" by simp
  then have d: "(of_char c :: nat) div 16 < 16" by arith
  have z: "hex_val (CHR ''0'') = Some 0" by (simp add: hex_val_def)
  show ?thesis
    using n by (simp add: decode_hex4_def z hex_val_hex_digit d)
qed

lemma parse_escape_char:
  "parse_string_body (escape_char c @ rest) = cons_result c (parse_string_body rest)"
proof -
  define n where "n = (of_char c :: nat)"
  have c: "c = char_of n" by (simp add: n_def)
  have n: "n < 256" by (simp add: n_def)
  have cs: "n = of_char d \<Longrightarrow> c = d" for d by (simp add: n_def)
  consider "n = 34" | "n = 92" | "n = 47" | "n = 8" | "n = 12" | "n = 10" | "n = 13" | "n = 9"
    | "n \<notin> {34, 92, 47, 8, 12, 10, 13, 9}" "n < 32 \<or> 127 \<le> n"
    | "n \<notin> {34, 92, 47, 8, 12, 10, 13, 9}" "\<not> (n < 32 \<or> 127 \<le> n)"
    by blast
  then show ?thesis
  proof cases
    case 9
    have e: "escape_char c = [CHR 0x5C, CHR ''u'', CHR ''0'', CHR ''0'', hex_digit (n div 16), hex_digit (n mod 16)]"
      using 9 by (simp add: escape_char_def n_def [symmetric] Let_def)
    show ?thesis using decode_hex4_byte [of c] by (simp add: e n_def)
  next
    case 10
    have e: "escape_char c = [c]"
      using 10 by (simp add: escape_char_def n_def [symmetric] Let_def)
    have "c = CHR 0x22 \<Longrightarrow> n = 34" "c = CHR 0x5C \<Longrightarrow> n = 92"
      by (simp_all add: n_def)
    then have "c \<noteq> CHR 0x22" "c \<noteq> CHR 0x5C" using 10 by auto
    then show ?thesis using 10 by (simp add: e n_def [symmetric])
  next
    case 1
    then have "c = CHR 0x22" using cs [of "CHR 0x22"] by simp
    then show ?thesis by (simp add: escape_char_def unescape_def)
  next
    case 2
    then have "c = CHR 0x5C" using cs [of "CHR 0x5C"] by simp
    then show ?thesis by (simp add: escape_char_def unescape_def)
  next
    case 3
    then have "c = CHR ''/''" using cs [of "CHR ''/''"] by simp
    then show ?thesis by (simp add: escape_char_def unescape_def)
  next
    case 4
    then have "c = CHR 0x08" using cs [of "CHR 0x08"] by simp
    then show ?thesis by (simp add: escape_char_def unescape_def)
  next
    case 5
    then have "c = CHR 0x0C" using cs [of "CHR 0x0C"] by simp
    then show ?thesis by (simp add: escape_char_def unescape_def)
  next
    case 6
    then have "c = CHR 0x0A" using cs [of "CHR 0x0A"] by simp
    then show ?thesis by (simp add: escape_char_def unescape_def)
  next
    case 7
    then have "c = CHR 0x0D" using cs [of "CHR 0x0D"] by simp
    then show ?thesis by (simp add: escape_char_def unescape_def)
  next
    case 8
    then have "c = CHR 0x09" using cs [of "CHR 0x09"] by simp
    then show ?thesis by (simp add: escape_char_def unescape_def)
  qed
qed

lemma parse_string_body_escaped:
  "parse_string_body (concat (map escape_char s) @ CHR 0x22 # rest) = Some (s, rest)"
  by (induction s) (simp_all add: parse_escape_char cons_result_def)

lemma parse_json_string:
  "\<exists>body. json_string s @ rest = CHR 0x22 # body \<and> parse_string_body body = Some (s, rest)"
  using parse_string_body_escaped [of s rest] by (simp add: json_string_def)

subsection \<open>Numbers\<close>

lemma digit_char: "d < 10 \<Longrightarrow> is_digit (char_of (48 + d)) \<and> (of_char (char_of (48 + d)) :: nat) - 48 = d"
  by (simp add: is_digit_def)

lemma parse_digits_show_nat:
  "parse_digits acc (show_nat n @ rest) = parse_digits (acc * 10 ^ length (show_nat n) + n) rest"
proof (induction n arbitrary: acc rest rule: show_nat.induct)
  case (1 n)
  show ?case
  proof (cases "n < 10")
    case True
    then show ?thesis using digit_char [of n] by (simp add: show_nat.simps [of n])
  next
    case False
    have d: "n mod 10 < 10" by simp
    have s: "show_nat n = show_nat (n div 10) @ [char_of (48 + n mod 10)]"
      using False by (simp add: show_nat.simps [of n])
    have "parse_digits acc (show_nat n @ rest)
        = parse_digits acc (show_nat (n div 10) @ (char_of (48 + n mod 10) # rest))"
      by (simp add: s)
    also have "\<dots> = parse_digits (acc * 10 ^ length (show_nat (n div 10)) + n div 10)
        (char_of (48 + n mod 10) # rest)"
      using False by (rule "1.IH")
    also have "\<dots> = parse_digits ((acc * 10 ^ length (show_nat (n div 10)) + n div 10) * 10 + n mod 10) rest"
      using digit_char [OF d] by simp
    also have "(acc * 10 ^ length (show_nat (n div 10)) + n div 10) * 10 + n mod 10
        = acc * 10 ^ length (show_nat n) + n"
      by (simp add: s algebra_simps)
    finally show ?thesis .
  qed
qed

lemma show_nat_head: "\<exists>c cs. show_nat n = c # cs \<and> is_digit c"
proof (induction n rule: show_nat.induct)
  case (1 n)
  show ?case
  proof (cases "n < 10")
    case True
    then show ?thesis using digit_char [of n] by (simp add: show_nat.simps [of n])
  next
    case False
    then obtain c cs where "show_nat (n div 10) = c # cs" "is_digit c" using "1.IH" by blast
    then show ?thesis using False by (simp add: show_nat.simps [of n])
  qed
qed

lemma parse_digits_stop: "follow_ok rest \<Longrightarrow> parse_digits acc rest = (acc, rest)"
  by (cases rest) (simp_all add: follow_ok_def)

lemma parse_number_show_int:
  assumes "follow_ok rest"
  shows "parse_number (show_int i @ rest) = Some (JInt i, rest)"
proof (cases "i < 0")
  case True
  obtain c cs where h: "show_nat (nat (- i)) = c # cs" "is_digit c"
    using show_nat_head by blast
  have "parse_digits 0 (show_nat (nat (- i)) @ rest) = (nat (- i), rest)"
    using parse_digits_show_nat [of 0 "nat (- i)" rest] parse_digits_stop [OF assms] by simp
  then have "parse_digits 0 (c # cs @ rest) = (nat (- i), rest)" by (simp add: h(1))
  then show ?thesis using True h by (simp add: parse_number_def show_int_def del: parse_digits.simps)
next
  case False
  obtain c cs where h: "show_nat (nat i) = c # cs" "is_digit c"
    using show_nat_head by blast
  have m: "c \<noteq> CHR ''-''" using h(2) by (auto simp: is_digit_def)
  have "parse_digits 0 (show_nat (nat i) @ rest) = (nat i, rest)"
    using parse_digits_show_nat [of 0 "nat i" rest] parse_digits_stop [OF assms] by simp
  then have "parse_digits 0 (c # cs @ rest) = (nat i, rest)" by (simp add: h(1))
  then show ?thesis using False h m by (simp add: parse_number_def show_int_def del: parse_digits.simps)
qed

lemma show_int_head:
  "\<exists>c cs. show_int i = c # cs \<and> (is_digit c \<or> c = CHR ''-'')"
  using show_nat_head [of "nat i"] by (auto simp: show_int_def)

lemma parse_literal_show_int:
  assumes "follow_ok rest"
  shows "parse_literal (show_int i @ rest) = Some (JInt i, rest)"
proof -
  obtain c cs where h: "show_int i = c # cs" "is_digit c \<or> c = CHR ''-''"
    using show_int_head by blast
  have "c \<noteq> CHR ''n''" "c \<noteq> CHR ''t''" "c \<noteq> CHR ''f''"
    using h(2) by (auto simp: is_digit_def)
  then have "parse_literal (c # cs @ rest) = parse_number (c # cs @ rest)"
    by (simp add: parse_literal_def)
  then show ?thesis using parse_number_show_int [OF assms, of i] by (simp add: h(1))
qed

subsection \<open>Whitespace\<close>

lemma skip_ws_pre:
  "\<forall>c\<in>set pre. is_ws c \<Longrightarrow> \<not> is_ws c \<Longrightarrow> skip_ws (pre @ c # cs) = c # cs"
  by (induction pre) (simp_all add: skip_ws_def)

lemma ws_spaces: "\<forall>c\<in>set (spaces n). is_ws c"
  by (simp add: spaces_def is_ws_def)

lemma ws_newline: "is_ws (CHR 0x0A)"
  by (simp add: is_ws_def)

lemma ws_not_digit: "is_ws c \<Longrightarrow> \<not> is_digit c"
  by (auto simp: is_ws_def is_digit_def)

lemma follow_ok_post:
  "\<forall>c\<in>set post. is_ws c \<Longrightarrow> \<not> is_digit d \<Longrightarrow> follow_ok (post @ d # rest)"
  by (cases post) (simp_all add: follow_ok_def ws_not_digit)

subsection \<open>The first character of a value\<close>

lemma dumps_head: "\<exists>c cs. dumps ind v = c # cs \<and> opens_value c"
proof (cases v)
  case (JInt i)
  obtain c cs where "show_int i = c # cs" "is_digit c \<or> c = CHR ''-''"
    using show_int_head by blast
  then show ?thesis using JInt by (auto simp: opens_value_def is_ws_def is_digit_def)
qed (auto simp: opens_value_def is_ws_def json_string_def)

subsection \<open>Atoms\<close>

lemma roundtrips_JNull: "roundtrips ind JNull"
  unfolding roundtrips_def
proof (intro allI impI)
  fix fuel :: nat and pre rest :: string
  assume f: "need JNull \<le> fuel" and w: "\<forall>c\<in>set pre. is_ws c"
  obtain n where n: "fuel = Suc n" using f by (cases fuel) simp_all
  have s: "skip_ws (pre @ CHR ''n'' # ''ull'' @ rest) = CHR ''n'' # ''ull'' @ rest"
    using w by (rule skip_ws_pre) (simp add: is_ws_def)
  show "parse_value fuel (pre @ dumps ind JNull @ rest) = Some (JNull, rest)"
    using s by (simp add: n parse_literal_def)
qed

lemma roundtrips_JBool: "roundtrips ind (JBool b)"
  unfolding roundtrips_def
proof (intro allI impI)
  fix fuel :: nat and pre rest :: string
  assume f: "need (JBool b) \<le> fuel" and w: "\<forall>c\<in>set pre. is_ws c"
  obtain n where n: "fuel = Suc n" using f by (cases fuel) simp_all
  have t: "skip_ws (pre @ CHR ''t'' # ''rue'' @ rest) = CHR ''t'' # ''rue'' @ rest"
    using w by (rule skip_ws_pre) (simp add: is_ws_def)
  have e: "skip_ws (pre @ CHR ''f'' # ''alse'' @ rest) = CHR ''f'' # ''alse'' @ rest"
    using w by (rule skip_ws_pre) (simp add: is_ws_def)
  show "parse_value fuel (pre @ dumps ind (JBool b) @ rest) = Some (JBool b, rest)"
    using t e by (cases b) (simp_all add: n parse_literal_def)
qed

lemma roundtrips_JInt: "roundtrips ind (JInt i)"
  unfolding roundtrips_def
proof (intro allI impI)
  fix fuel :: nat and pre rest :: string
  assume f: "need (JInt i) \<le> fuel" and w: "\<forall>c\<in>set pre. is_ws c" and k: "follow_ok rest"
  obtain n where n: "fuel = Suc n" using f by (cases fuel) simp_all
  obtain c cs where h: "show_int i = c # cs" "is_digit c \<or> c = CHR ''-''"
    using show_int_head by blast
  have nw: "\<not> is_ws c" using h(2) by (auto simp: is_ws_def is_digit_def)
  have s: "skip_ws (pre @ c # cs @ rest) = c # cs @ rest"
    using w nw by (rule skip_ws_pre)
  have q: "c \<noteq> CHR 0x22" "c \<noteq> CHR ''[''" "c \<noteq> CHR ''{''"
    using h(2) by (auto simp: is_digit_def)
  have "parse_literal (c # cs @ rest) = Some (JInt i, rest)"
    using parse_literal_show_int [OF k, of i] by (simp add: h(1))
  then show "parse_value fuel (pre @ dumps ind (JInt i) @ rest) = Some (JInt i, rest)"
    using s q by (simp add: n h(1))
qed

lemma roundtrips_JString: "roundtrips ind (JString s)"
  unfolding roundtrips_def
proof (intro allI impI)
  fix fuel :: nat and pre rest :: string
  assume f: "need (JString s) \<le> fuel" and w: "\<forall>c\<in>set pre. is_ws c"
  obtain n where n: "fuel = Suc n" using f by (cases fuel) simp_all
  obtain body where b: "json_string s @ rest = CHR 0x22 # body" "parse_string_body body = Some (s, rest)"
    using parse_json_string by blast
  have "skip_ws (pre @ CHR 0x22 # body) = CHR 0x22 # body"
    using w by (rule skip_ws_pre) (simp add: is_ws_def)
  then show "parse_value fuel (pre @ dumps ind (JString s) @ rest) = Some (JString s, rest)"
    using b by (simp add: n)
qed

subsection \<open>Elements and members\<close>

lemma parse_elements_lines:
  "xs \<noteq> [] \<Longrightarrow> \<forall>x\<in>set xs. roundtrips ind x \<Longrightarrow> sum_list (map (\<lambda>x. Suc (need x)) xs) \<le> fuel \<Longrightarrow>
   \<forall>c\<in>set pre. is_ws c \<Longrightarrow> \<forall>c\<in>set post. is_ws c \<Longrightarrow>
   parse_elements fuel
     (pre @ join_lines (map (\<lambda>x. spaces k @ dumps ind x) xs) @ post @ CHR '']'' # rest)
   = Some (xs, rest)"
proof (induction xs arbitrary: fuel pre)
  case Nil
  then show ?case by simp
next
  case (Cons x xs)
  obtain n where n: "fuel = Suc n" using Cons.prems(3) by (cases fuel) simp_all
  have nx: "need x \<le> n" using Cons.prems(3) n by simp
  have rx: "roundtrips ind x" using Cons.prems(2) by simp
  have wp: "\<forall>c\<in>set (pre @ spaces k). is_ws c" using Cons.prems(4) ws_spaces by auto
  show ?case
  proof (cases xs)
    case Nil
    have fo: "follow_ok (post @ CHR '']'' # rest)"
      using Cons.prems(5) by (rule follow_ok_post) (simp add: is_digit_def)
    have "parse_value n ((pre @ spaces k) @ dumps ind x @ (post @ CHR '']'' # rest))
        = Some (x, post @ CHR '']'' # rest)"
      using rx nx wp fo unfolding roundtrips_def by blast
    moreover have "skip_ws (post @ CHR '']'' # rest) = CHR '']'' # rest"
      using Cons.prems(5) by (rule skip_ws_pre) (simp add: is_ws_def)
    ultimately show ?thesis by (simp add: n Nil)
  next
    case (Cons y ys)
    define tail where
      "tail = join_lines (map (\<lambda>x. spaces k @ dumps ind x) (y # ys)) @ post @ CHR '']'' # rest"
    have fo: "follow_ok (CHR '','' # CHR 0x0A # tail)" by (simp add: follow_ok_def is_digit_def)
    have "parse_value n ((pre @ spaces k) @ dumps ind x @ (CHR '','' # CHR 0x0A # tail))
        = Some (x, CHR '','' # CHR 0x0A # tail)"
      using rx nx wp fo unfolding roundtrips_def by blast
    moreover have "skip_ws (CHR '','' # CHR 0x0A # tail) = CHR '','' # CHR 0x0A # tail"
      by (simp add: skip_ws_def is_ws_def)
    moreover have "parse_elements n ([CHR 0x0A] @ tail) = Some (y # ys, rest)"
      unfolding tail_def
      using Cons.prems(2,3,5) n Cons by (intro Cons.IH [unfolded Cons]) (simp_all add: ws_newline)
    ultimately show ?thesis by (simp add: n Cons tail_def)
  qed
qed

lemma parse_members_lines:
  "ms \<noteq> [] \<Longrightarrow> \<forall>m\<in>set ms. roundtrips ind (snd m) \<Longrightarrow>
   sum_list (map (\<lambda>m. Suc (need (snd m))) ms) \<le> fuel \<Longrightarrow>
   \<forall>c\<in>set pre. is_ws c \<Longrightarrow> \<forall>c\<in>set post. is_ws c \<Longrightarrow>
   parse_members fuel
     (pre @ join_lines (map (\<lambda>m. spaces k @ json_string (fst m) @ '':'' @ dumps ind (snd m)) ms)
        @ post @ CHR ''}'' # rest)
   = Some (ms, rest)"
proof (induction ms arbitrary: fuel pre)
  case Nil
  then show ?case by simp
next
  case (Cons m ms)
  obtain key v where m: "m = (key, v)" by (cases m)
  obtain n where n: "fuel = Suc n" using Cons.prems(3) by (cases fuel) simp_all
  have nx: "need v \<le> n" using Cons.prems(3) n m by simp
  have rx: "roundtrips ind v" using Cons.prems(2) m by simp
  have wp: "\<forall>c\<in>set (pre @ spaces k). is_ws c" using Cons.prems(4) ws_spaces by auto
  have key: "\<exists>body. (pre @ spaces k) @ json_string key @ CHR '':'' # r = (pre @ spaces k) @ CHR 0x22 # body
      \<and> skip_ws ((pre @ spaces k) @ CHR 0x22 # body) = CHR 0x22 # body
      \<and> parse_string_body body = Some (key, CHR '':'' # r)" for r
  proof -
    obtain body where b: "json_string key @ CHR '':'' # r = CHR 0x22 # body"
      "parse_string_body body = Some (key, CHR '':'' # r)"
      using parse_json_string by blast
    have "skip_ws ((pre @ spaces k) @ CHR 0x22 # body) = CHR 0x22 # body"
      using wp by (rule skip_ws_pre) (simp add: is_ws_def)
    then show ?thesis using b by auto
  qed
  have colon: "skip_ws (CHR '':'' # r) = CHR '':'' # r" for r
    by (simp add: skip_ws_def is_ws_def)
  show ?case
  proof (cases ms)
    case Nil
    define r where "r = dumps ind v @ post @ CHR ''}'' # rest"
    obtain body where b: "(pre @ spaces k) @ json_string key @ CHR '':'' # r = (pre @ spaces k) @ CHR 0x22 # body"
      "skip_ws ((pre @ spaces k) @ CHR 0x22 # body) = CHR 0x22 # body"
      "parse_string_body body = Some (key, CHR '':'' # r)"
      using key by blast
    have fo: "follow_ok (post @ CHR ''}'' # rest)"
      using Cons.prems(5) by (rule follow_ok_post) (simp add: is_digit_def)
    have "parse_value n ([] @ dumps ind v @ (post @ CHR ''}'' # rest)) = Some (v, post @ CHR ''}'' # rest)"
      using rx nx fo unfolding roundtrips_def by (metis empty_iff list.set(1))
    then have pv: "parse_value n r = Some (v, post @ CHR ''}'' # rest)" by (simp add: r_def)
    have sk: "skip_ws (post @ CHR ''}'' # rest) = CHR ''}'' # rest"
      using Cons.prems(5) by (rule skip_ws_pre) (simp add: is_ws_def)
    have "parse_members (Suc n) ((pre @ spaces k) @ json_string key @ CHR '':'' # r) = Some ([(key, v)], rest)"
      unfolding b(1) using b(2,3) colon pv sk by simp
    then show ?thesis by (simp add: n Nil m r_def)
  next
    case (Cons m' ms')
    define tail where
      "tail = join_lines (map (\<lambda>m. spaces k @ json_string (fst m) @ '':'' @ dumps ind (snd m)) (m' # ms'))
          @ post @ CHR ''}'' # rest"
    define r where "r = dumps ind v @ CHR '','' # CHR 0x0A # tail"
    obtain body where b: "(pre @ spaces k) @ json_string key @ CHR '':'' # r = (pre @ spaces k) @ CHR 0x22 # body"
      "skip_ws ((pre @ spaces k) @ CHR 0x22 # body) = CHR 0x22 # body"
      "parse_string_body body = Some (key, CHR '':'' # r)"
      using key by blast
    have fo: "follow_ok (CHR '','' # CHR 0x0A # tail)" by (simp add: follow_ok_def is_digit_def)
    have "parse_value n ([] @ dumps ind v @ (CHR '','' # CHR 0x0A # tail)) = Some (v, CHR '','' # CHR 0x0A # tail)"
      using rx nx fo unfolding roundtrips_def by (metis empty_iff list.set(1))
    then have pv: "parse_value n r = Some (v, CHR '','' # CHR 0x0A # tail)" by (simp add: r_def)
    have sk: "skip_ws (CHR '','' # CHR 0x0A # tail) = CHR '','' # CHR 0x0A # tail"
      by (simp add: skip_ws_def is_ws_def)
    have ih: "parse_members n ([CHR 0x0A] @ tail) = Some (m' # ms', rest)"
      unfolding tail_def
      using Cons.prems(2,3,5) n Cons m by (intro Cons.IH [unfolded Cons]) (simp_all add: ws_newline)
    have "parse_members (Suc n) ((pre @ spaces k) @ json_string key @ CHR '':'' # r) = Some ((key, v) # m' # ms', rest)"
      unfolding b(1) using b(2,3) colon pv sk ih by simp
    then show ?thesis by (simp add: n Cons m r_def tail_def)
  qed
qed

subsection \<open>Every value\<close>

lemma roundtrips_JArray:
  assumes "\<forall>x\<in>set xs. roundtrips (ind + 1) x"
  shows "roundtrips ind (JArray xs)"
  unfolding roundtrips_def
proof (intro allI impI)
  fix fuel :: nat and pre rest :: string
  assume f: "need (JArray xs) \<le> fuel" and w: "\<forall>c\<in>set pre. is_ws c"
  obtain n where n: "fuel = Suc n" using f by (cases fuel) simp_all
  have nf: "sum_list (map (\<lambda>x. Suc (need x)) xs) \<le> n" using f n by simp
  show "parse_value fuel (pre @ dumps ind (JArray xs) @ rest) = Some (JArray xs, rest)"
  proof (cases xs)
    case Nil
    have "skip_ws (pre @ CHR ''['' # CHR '']'' # rest) = CHR ''['' # CHR '']'' # rest"
      using w by (rule skip_ws_pre) (simp add: is_ws_def)
    moreover have "skip_ws (CHR '']'' # rest) = CHR '']'' # rest"
      by (simp add: skip_ws_def is_ws_def)
    ultimately show ?thesis by (simp add: n Nil)
  next
    case (Cons y ys)
    define lines where
      "lines = join_lines (map (\<lambda>x. spaces (2 * (ind + 1)) @ dumps (ind + 1) x) xs)"
    define cs where "cs = [CHR 0x0A] @ lines @ (CHR 0x0A # spaces (2 * ind)) @ CHR '']'' # rest"
    have t: "pre @ dumps ind (JArray xs) @ rest = pre @ CHR ''['' # cs"
      using Cons by (simp add: cs_def lines_def)
    have s: "skip_ws (pre @ CHR ''['' # cs) = CHR ''['' # cs"
      using w by (rule skip_ws_pre) (simp add: is_ws_def)
    obtain c tl where h: "dumps (ind + 1) y = c # tl" "opens_value c"
      using dumps_head by blast
    obtain more where l: "lines = spaces (2 * (ind + 1)) @ c # more"
      using h(1) Cons by (cases ys) (simp_all add: lines_def)
    have "skip_ws (([CHR 0x0A] @ spaces (2 * (ind + 1))) @ c # (more @ (CHR 0x0A # spaces (2 * ind)) @ CHR '']'' # rest))
        = c # (more @ (CHR 0x0A # spaces (2 * ind)) @ CHR '']'' # rest)"
      using h(2) ws_spaces ws_newline by (intro skip_ws_pre) (auto simp: opens_value_def)
    then have s2: "skip_ws cs = c # (more @ (CHR 0x0A # spaces (2 * ind)) @ CHR '']'' # rest)"
      by (simp add: cs_def l)
    have c: "c \<noteq> CHR '']''" using h(2) by (simp add: opens_value_def)
    have "parse_elements n cs = Some (xs, rest)"
      unfolding cs_def lines_def
      using assms nf Cons ws_spaces ws_newline by (intro parse_elements_lines) auto
    then show ?thesis unfolding t using s s2 c by (simp add: n)
  qed
qed

lemma roundtrips_JObject:
  assumes "\<forall>m\<in>set ms. roundtrips (ind + 1) (snd m)"
  shows "roundtrips ind (JObject ms)"
  unfolding roundtrips_def
proof (intro allI impI)
  fix fuel :: nat and pre rest :: string
  assume f: "need (JObject ms) \<le> fuel" and w: "\<forall>c\<in>set pre. is_ws c"
  obtain n where n: "fuel = Suc n" using f by (cases fuel) simp_all
  have nf: "sum_list (map (\<lambda>m. Suc (need (snd m))) ms) \<le> n" using f n by simp
  show "parse_value fuel (pre @ dumps ind (JObject ms) @ rest) = Some (JObject ms, rest)"
  proof (cases ms)
    case Nil
    have "skip_ws (pre @ CHR ''{'' # CHR ''}'' # rest) = CHR ''{'' # CHR ''}'' # rest"
      using w by (rule skip_ws_pre) (simp add: is_ws_def)
    moreover have "skip_ws (CHR ''}'' # rest) = CHR ''}'' # rest"
      by (simp add: skip_ws_def is_ws_def)
    ultimately show ?thesis by (simp add: n Nil)
  next
    case (Cons m' ms')
    define lines where
      "lines = join_lines (map (\<lambda>m. spaces (2 * (ind + 1)) @ json_string (fst m) @ '':''
                              @ dumps (ind + 1) (snd m)) ms)"
    define cs where "cs = [CHR 0x0A] @ lines @ (CHR 0x0A # spaces (2 * ind)) @ CHR ''}'' # rest"
    have t: "pre @ dumps ind (JObject ms) @ rest = pre @ CHR ''{'' # cs"
      using Cons by (simp add: cs_def lines_def)
    have s: "skip_ws (pre @ CHR ''{'' # cs) = CHR ''{'' # cs"
      using w by (rule skip_ws_pre) (simp add: is_ws_def)
    obtain more where l: "lines = spaces (2 * (ind + 1)) @ CHR 0x22 # more"
      using Cons by (cases ms') (simp_all add: lines_def json_string_def)
    have "skip_ws (([CHR 0x0A] @ spaces (2 * (ind + 1))) @ CHR 0x22 # (more @ (CHR 0x0A # spaces (2 * ind)) @ CHR ''}'' # rest))
        = CHR 0x22 # (more @ (CHR 0x0A # spaces (2 * ind)) @ CHR ''}'' # rest)"
      using ws_spaces ws_newline by (intro skip_ws_pre) (auto simp: is_ws_def)
    then have s2: "skip_ws cs = CHR 0x22 # (more @ (CHR 0x0A # spaces (2 * ind)) @ CHR ''}'' # rest)"
      by (simp add: cs_def l)
    have "parse_members n cs = Some (ms, rest)"
      unfolding cs_def lines_def
      using assms nf Cons ws_spaces ws_newline by (intro parse_members_lines) auto
    then show ?thesis unfolding t using s s2 by (simp add: n)
  qed
qed

lemma roundtrips_all: "roundtrips ind v"
proof (induction v arbitrary: ind)
  case JNull
  show ?case by (rule roundtrips_JNull)
next
  case (JBool b)
  show ?case by (rule roundtrips_JBool)
next
  case (JInt i)
  show ?case by (rule roundtrips_JInt)
next
  case (JString s)
  show ?case by (rule roundtrips_JString)
next
  case (JArray xs)
  then show ?case by (intro roundtrips_JArray) simp
next
  case (JObject ms)
  have "roundtrips (ind + 1) (snd m)" if "m \<in> set ms" for m
  proof -
    have "snd m \<in> Basic_BNFs.snds m" by (cases m) simp
    then show ?thesis using that by (rule JObject [rotated])
  qed
  then show ?case by (intro roundtrips_JObject) simp
qed

subsection \<open>Fuel\<close>

lemma length_join_lines: "sum_list (map length ls) \<le> length (join_lines ls)"
  by (induction ls rule: join_lines.induct) simp_all

lemma need_le_length: "need v \<le> length (dumps ind v)"
proof (induction v arbitrary: ind)
  case JNull
  show ?case by simp
next
  case (JBool b)
  show ?case by simp
next
  case (JInt i)
  obtain c cs where "show_int i = c # cs" using show_int_head by blast
  then show ?case by simp
next
  case (JString s)
  show ?case by (simp add: json_string_def)
next
  case (JArray xs)
  have "sum_list (map (\<lambda>x. Suc (need x)) xs)
      \<le> sum_list (map (\<lambda>x. length (spaces (2 * (ind + 1)) @ dumps (ind + 1) x)) xs)"
  proof (rule sum_list_mono)
    fix x assume "x \<in> set xs"
    then have "need x \<le> length (dumps (ind + 1) x)" by (rule JArray)
    then show "Suc (need x) \<le> length (spaces (2 * (ind + 1)) @ dumps (ind + 1) x)"
      by (simp add: spaces_def)
  qed
  also have "\<dots> \<le> length (join_lines (map (\<lambda>x. spaces (2 * (ind + 1)) @ dumps (ind + 1) x) xs))"
    using length_join_lines [of "map (\<lambda>x. spaces (2 * (ind + 1)) @ dumps (ind + 1) x) xs"]
    by (simp add: comp_def)
  finally show ?case by simp
next
  case (JObject ms)
  have "sum_list (map (\<lambda>m. Suc (need (snd m))) ms)
      \<le> sum_list (map (\<lambda>m. length (spaces (2 * (ind + 1)) @ json_string (fst m) @ '':''
                              @ dumps (ind + 1) (snd m))) ms)"
  proof (rule sum_list_mono)
    fix m assume m: "m \<in> set ms"
    have "snd m \<in> Basic_BNFs.snds m" by (cases m) simp
    then have "need (snd m) \<le> length (dumps (ind + 1) (snd m))"
      using m by (rule JObject [rotated])
    then show "Suc (need (snd m)) \<le> length (spaces (2 * (ind + 1)) @ json_string (fst m) @ '':''
                              @ dumps (ind + 1) (snd m))"
      by simp
  qed
  also have "\<dots> \<le> length (join_lines (map (\<lambda>m. spaces (2 * (ind + 1)) @ json_string (fst m) @ '':''
                              @ dumps (ind + 1) (snd m)) ms))"
    using length_join_lines [of "map (\<lambda>m. spaces (2 * (ind + 1)) @ json_string (fst m) @ '':''
                              @ dumps (ind + 1) (snd m)) ms"]
    by (simp add: comp_def)
  finally show ?case by simp
qed

lemma json_loads_dumps: "json_loads (dumps 0 v) = Some v"
proof -
  have "parse_value (length (dumps 0 v)) ([] @ dumps 0 v @ []) = Some (v, [])"
    using roundtrips_all [of 0 v] need_le_length [of v 0]
    unfolding roundtrips_def by (metis empty_iff list.set(1) follow_ok_def list.simps(4))
  then show ?thesis by (simp add: json_loads_def skip_ws_def)
qed

subsection \<open>Splitting at a separator\<close>

lemma split_on_nonempty: "split_on sep s \<noteq> []"
  by (induction s) (simp_all split: list.splits)

lemma split_on_join: "concat (map (\<lambda>w. w @ [sep]) (split_on sep s)) = s @ [sep]"
proof (induction s)
  case Nil
  show ?case by simp
next
  case (Cons c cs)
  obtain w ws where w: "split_on sep cs = w # ws"
    using split_on_nonempty [of sep cs] by (cases "split_on sep cs") auto
  show ?case using Cons by (simp add: w)
qed

lemma split_on_free: "w \<in> set (split_on sep s) \<Longrightarrow> sep \<notin> set w"
proof (induction s arbitrary: w)
  case Nil
  then show ?case by simp
next
  case (Cons c cs)
  obtain v vs where v: "split_on sep cs = v # vs"
    using split_on_nonempty [of sep cs] by (cases "split_on sep cs") auto
  have iv: "sep \<notin> set v" and ivs: "\<forall>u\<in>set vs. sep \<notin> set u"
    using Cons.IH v by auto
  show ?case using Cons.prems iv ivs by (auto simp: v split: if_splits)
qed

section \<open>The claims\<close>

subsection \<open>C1\<close>

text \<open>
  Claim C1. For every catalog and every list of user skills, \<open>score_roles\<close> returns without
  raising; its entries are the roles of the catalog, each with the match percentage
  \<open>round2\<close> of 100 times the number of required skills found among the user's skills
  divided by the number of required skills, and with 0 for a role that requires nothing.
  Each percentage is a two-decimal number at most 0.005 away from the exact quotient.
\<close>

theorem score_roles_match_percentage:
  assumes "rounds2 round2"
  shows "\<exists>scores. score_roles round2 user_skills cat = Inr scores
     \<and> mset (map (\<lambda>e. (Role e, Match e)) scores) =
         mset (map (\<lambda>(role, req_skills).
                 (role, if req_skills = [] then 0
                        else round2 (exact_match_percentage user_skills req_skills))) cat)
     \<and> (\<forall>e\<in>set scores. \<exists>req_skills. (Role e, req_skills) \<in> set cat
           \<and> (\<exists>k::int. Match e = of_int k / 100)
           \<and> \<bar>Match e - exact_match_percentage user_skills req_skills\<bar> \<le> 1 / 200)"
proof -
  define entry where
    "entry = (\<lambda>(role, req_skills). projr (score_entry round2 user_skills role req_skills))"
  define scores where "scores = sorted_reverse Match (map entry cat)"
  have s: "score_roles round2 user_skills cat = Inr scores"
    by (simp add: score_roles_Inr scores_def entry_def)
  have rm: "Role (entry (role, req_skills)) = role"
    "Match (entry (role, req_skills)) =
      (if req_skills = [] then 0 else round2 (exact_match_percentage user_skills req_skills))"
    for role req_skills
    by (simp_all add: entry_def score_entry_Inr)
  have l: "map (\<lambda>e. (Role e, Match e)) (map entry cat) =
      map (\<lambda>(role, req_skills).
                 (role, if req_skills = [] then 0
                        else round2 (exact_match_percentage user_skills req_skills))) cat"
    by (induction cat) (auto simp: rm)
  have "mset (map (\<lambda>e. (Role e, Match e)) scores) = mset (map (\<lambda>e. (Role e, Match e)) (map entry cat))"
    unfolding scores_def by (simp only: mset_map mset_sorted_reverse)
  also have "\<dots> = mset (map (\<lambda>(role, req_skills).
                 (role, if req_skills = [] then 0
                        else round2 (exact_match_percentage user_skills req_skills))) cat)"
    by (simp only: l)
  finally have m: "mset (map (\<lambda>e. (Role e, Match e)) scores) =
         mset (map (\<lambda>(role, req_skills).
                 (role, if req_skills = [] then 0
                        else round2 (exact_match_percentage user_skills req_skills))) cat)" .
  have b: "\<exists>req_skills. (Role e, req_skills) \<in> set cat
           \<and> (\<exists>k::int. Match e = of_int k / 100)
           \<and> \<bar>Match e - exact_match_percentage user_skills req_skills\<bar> \<le> 1 / 200"
    if ein: "e \<in> set scores" for e
  proof -
    have "e \<in> entry ` set cat" using ein by (simp add: scores_def set_sorted_reverse)
    then obtain role req_skills where rr: "(role, req_skills) \<in> set cat" "e = entry (role, req_skills)"
      by auto
    have r: "Role e = role" and
      mt: "Match e = (if req_skills = [] then 0 else round2 (exact_match_percentage user_skills req_skills))"
      using rm [of role req_skills] rr(2) by simp_all
    have z: "exact_match_percentage user_skills [] = 0" by (simp add: exact_match_percentage_def)
    have "Match e = round2 (exact_match_percentage user_skills req_skills)"
      using mt z rounds2_zero [OF assms] by (cases "req_skills = []") simp_all
    then have "(\<exists>k::int. Match e = of_int k / 100)
        \<and> \<bar>Match e - exact_match_percentage user_skills req_skills\<bar> \<le> 1 / 200"
      using assms unfolding rounds2_def by simp
    then show ?thesis using rr(1) r by blast
  qed
  show ?thesis using s m b by blast
qed

theorem score_roles_match_percentage_witness:
  "rounds2 round_half_even2 \<and>
   (\<exists>scores. score_roles round_half_even2 [''Python'', ''Linux''] role_skills = Inr scores
     \<and> mset (map (\<lambda>e. (Role e, Match e)) scores) =
         mset (map (\<lambda>(role, req_skills).
                 (role, if req_skills = [] then 0
                        else round_half_even2 (exact_match_percentage [''Python'', ''Linux''] req_skills)))
               role_skills)
     \<and> (\<forall>e\<in>set scores. \<exists>req_skills. (Role e, req_skills) \<in> set role_skills
           \<and> (\<exists>k::int. Match e = of_int k / 100)
           \<and> \<bar>Match e - exact_match_percentage [''Python'', ''Linux''] req_skills\<bar> \<le> 1 / 200))"
  using score_roles_match_percentage [OF round_half_even2_rounds2, of "[''Python'', ''Linux'']" role_skills]
    round_half_even2_rounds2
  by blast

subsection \<open>C2\<close>

text \<open>
  Claim C2, as amended. For every text, catalog and tokenizer, every confidence returned by
  the extraction lies between 0 and 1, and every key is a token of the text that equals a
  skill of the catalog up to letter case. The key keeps the spelling of the token: it is
  not replaced by the catalog's spelling.
\<close>

theorem extract_skills_keys_up_to_case:
  assumes "rounds2 round2"
  shows "\<exists>conf. extract_skills_in (common_skills_of cat) round2 nlp text = Inr conf
     \<and> (\<forall>v\<in>set (dict_values conf). 0 \<le> v \<and> v \<le> 1)
     \<and> (\<forall>k\<in>set (keys conf). k \<in> set (nlp text) \<and>
           (\<exists>role req s. (role, req) \<in> set cat \<and> s \<in> set req \<and> lower k = lower s))"
proof -
  define found where "found = skills_found_in (common_skills_of cat) (nlp text)"
  obtain conf mx where c: "extract_skills_in (common_skills_of cat) round2 nlp text = Inr conf"
    "keys conf = keys (Counter found)"
    "\<forall>v\<in>set (dict_values conf). 0 \<le> v \<and> v \<le> 1"
    using extract_skills_in_shape [OF assms, of "common_skills_of cat" nlp "text"]
    unfolding found_def by blast
  have "k \<in> set (nlp text) \<and> (\<exists>role req s. (role, req) \<in> set cat \<and> s \<in> set req \<and> lower k = lower s)"
    if kin: "k \<in> set (keys conf)" for k
  proof -
    have "k \<in> set found" using kin by (simp add: c(2) Counter_keys)
    then have "k \<in> set (nlp text)" "lower k \<in> lower ` set (common_skills_of cat)"
      by (simp_all add: found_def skills_found_in_def)
    then show ?thesis by (auto simp: set_common_skills_of)
  qed
  then show ?thesis using c(1,3) by blast
qed

theorem extract_skills_keys_up_to_case_witness:
  "rounds2 round_half_even2 \<and>
   (\<exists>conf. extract_skills_in (common_skills_of role_skills) round_half_even2 blank_tokens
             ''python and SQL and python'' = Inr conf
     \<and> (\<forall>v\<in>set (dict_values conf). 0 \<le> v \<and> v \<le> 1)
     \<and> (\<forall>k\<in>set (keys conf). k \<in> set (blank_tokens ''python and SQL and python'') \<and>
           (\<exists>role req s. (role, req) \<in> set role_skills \<and> s \<in> set req \<and> lower k = lower s)))"
  using extract_skills_keys_up_to_case [OF round_half_even2_rounds2, of role_skills blank_tokens
      "''python and SQL and python''"] round_half_even2_rounds2
  by blast

text \<open>
  The claim as stated fails: the token \<open>python\<close> is kept as a key, and the vocabulary
  holds \<open>Python\<close> only. The keys do not depend on the rounding.
\<close>

theorem extract_skills_keys_counterexample:
  "extract_skills round_half_even2 blank_tokens ''python'' = Inr [(''python'', 1)]
   \<and> \<not> set (keys [(''python'', 1 :: rat)]) \<subseteq> set common_skills"
  by code_simp

subsection \<open>C3\<close>

text \<open>
  Claim C3, as amended. With no upload and an empty manual entry the user has no skills;
  every role then scores 0 and the roles keep the catalog's order, every radar chart's
  user series is all zeros, and the learning plan is not empty in general: it lists every
  required skill of the first five roles of the catalog, in order.
\<close>

theorem empty_input_results:
  assumes "rounds2 round2"
  shows "user_skills_conf_of round2 nlp None [] = Inr []
   \<and> (\<exists>scores. score_roles round2 (keys ([] :: (string, rat) dict)) cat = Inr scores
        \<and> map Role scores = keys cat
        \<and> (\<forall>e\<in>set scores. Match e = 0)
        \<and> build_plan scores = map plan_entry (concat (dict_values (take 5 cat)))
        \<and> (\<forall>e\<in>set scores. \<forall>list_of_set. \<forall>v\<in>set (radar_user_vals list_of_set [] cat e). v = 0))"
proof -
  define entry where
    "entry = (\<lambda>(role, req_skills). projr (score_entry round2 [] role req_skills))"
  have en: "entry (role, req_skills) =
      \<lparr>Role = role, Match = 0, Matched_Skills = [], Missing_Skills = req_skills\<rparr>" for role req_skills
    by (simp add: entry_def score_entry_Inr exact_match_percentage_def rounds2_zero [OF assms])
  have m0: "\<forall>e\<in>set (map entry cat). Match e = 0" using en by auto
  have srt: "sorted_reverse Match (map entry cat) = map entry cat"
    using m0 by (rule sorted_reverse_const)
  have s: "score_roles round2 (keys ([] :: (string, rat) dict)) cat = Inr (map entry cat)"
    by (simp add: score_roles_Inr keys_def srt [unfolded entry_def] entry_def)
  have r: "map Role (map entry cat) = keys cat"
    using en by (induction cat) (auto simp: keys_def)
  have pl: "concat (map (\<lambda>e. map plan_entry (Missing_Skills e)) (map entry xs))
      = map plan_entry (concat (dict_values xs))" for xs
    using en by (induction xs) (auto simp: dict_values_def)
  have p: "build_plan (map entry cat) = map plan_entry (concat (dict_values (take 5 cat)))"
    using build_plan_concat [of "map entry cat"] pl [of "take 5 cat"] by (simp add: take_map)
  have v: "\<forall>e\<in>set (map entry cat). \<forall>list_of_set.
      \<forall>v\<in>set (radar_user_vals list_of_set [] cat e). v = 0"
    by (simp add: radar_user_vals_def dict_get_def Let_def)
  have c: "user_skills_conf_of round2 nlp None [] = Inr []"
    by (simp add: user_skills_conf_of_def)
  show ?thesis using c s r m0 p v by blast
qed

theorem empty_input_results_witness:
  "rounds2 round_half_even2 \<and> user_skills_conf_of round_half_even2 blank_tokens None [] = Inr []
   \<and> (\<exists>scores. score_roles round_half_even2 (keys ([] :: (string, rat) dict)) role_skills = Inr scores
        \<and> map Role scores = keys role_skills
        \<and> (\<forall>e\<in>set scores. Match e = 0)
        \<and> build_plan scores = map plan_entry (concat (dict_values (take 5 role_skills)))
        \<and> (\<forall>e\<in>set scores. \<forall>list_of_set. \<forall>v\<in>set (radar_user_vals list_of_set [] role_skills e). v = 0))"
  using empty_input_results [OF round_half_even2_rounds2, of blank_tokens role_skills]
    round_half_even2_rounds2
  by blast

text \<open>
  The claim as stated fails on the plan: for the script's own catalog the plan built from
  an empty input has 25 items. No score is rounded to anything but 0 here, so the
  rounding plays no part.
\<close>

theorem empty_input_plan_counterexample:
  "user_skills_conf_of round_half_even2 blank_tokens None [] = Inr []
   \<and> \<not> isl (score_roles round_half_even2 (keys ([] :: (string, rat) dict)) role_skills)
   \<and> build_plan (projr (score_roles round_half_even2 (keys ([] :: (string, rat) dict)) role_skills)) \<noteq> []
   \<and> length (build_plan (projr (score_roles round_half_even2 (keys ([] :: (string, rat) dict)) role_skills))) = 25"
  by code_simp

subsection \<open>C4\<close>

text \<open>
  Claim C4. For every text and every tokenizer, \<open>extract_skills\<close> returns a mapping and
  does not raise: the divisor \<open>max_count\<close> is at least 1, every confidence lies between
  0 and 1, a nonempty mapping gives confidence exactly 1 to a token whose count is the
  largest, and the mapping is empty when no token of the text is a skill.
\<close>

theorem extract_skills_confidence:
  assumes "rounds2 round2"
  shows "\<exists>conf mx. extract_skills round2 nlp text = Inr conf
     \<and> max_count_of (Counter (skills_found_in common_skills (nlp text))) = Inr mx \<and> 1 \<le> mx
     \<and> (\<forall>v\<in>set (dict_values conf). 0 \<le> v \<and> v \<le> 1)
     \<and> (conf \<noteq> [] \<longrightarrow>
          (\<exists>k. (k, 1) \<in> set conf \<and>
             (\<forall>t. count_list (skills_found_in common_skills (nlp text)) t
                    \<le> count_list (skills_found_in common_skills (nlp text)) k)))
     \<and> (skills_found_in common_skills (nlp text) = [] \<longrightarrow> conf = [])"
proof -
  define found where "found = skills_found_in common_skills (nlp text)"
  obtain conf mx where c: "extract_skills_in common_skills round2 nlp text = Inr conf"
    "max_count_of (Counter found) = Inr mx" "1 \<le> mx"
    "keys conf = keys (Counter found)"
    "\<forall>v\<in>set (dict_values conf). 0 \<le> v \<and> v \<le> 1"
    "\<forall>k\<in>set found. count_list found k = mx \<longrightarrow> (k, 1) \<in> set conf"
    using extract_skills_in_shape [OF assms, of common_skills nlp "text"] unfolding found_def by blast
  have empty: "conf = [] \<longleftrightarrow> found = []"
  proof -
    have "conf = [] \<longleftrightarrow> keys conf = []" by (simp add: keys_def)
    also have "\<dots> \<longleftrightarrow> Counter found = []" unfolding c(4) by (simp add: keys_def)
    finally show ?thesis by (simp add: Counter_empty)
  qed
  have modal: "\<exists>k. (k, 1) \<in> set conf \<and> (\<forall>t. count_list found t \<le> count_list found k)"
    if "conf \<noteq> []"
  proof -
    have ne: "found \<noteq> []" using that empty by simp
    obtain mx' where mx': "max_count_of (Counter found) = Inr mx'"
      "found \<noteq> [] \<longrightarrow> (\<exists>k\<in>set found. mx' = count_list found k) \<and> (\<forall>t. count_list found t \<le> mx')"
      using max_count_of_Counter [of found] by blast
    have "mx' = mx" using mx'(1) c(2) by simp
    then obtain k where k: "k \<in> set found" "mx = count_list found k" "\<forall>t. count_list found t \<le> mx"
      using mx'(2) ne by blast
    then have "(k, 1) \<in> set conf" using c(6) by simp
    then show ?thesis using k by auto
  qed
  show ?thesis
    using c(1,2,3,5) modal empty unfolding found_def extract_skills_def by blast
qed

theorem extract_skills_confidence_witness:
  "rounds2 round_half_even2 \<and>
   (\<exists>conf mx. extract_skills round_half_even2 blank_tokens ''python and SQL and python'' = Inr conf
     \<and> max_count_of (Counter (skills_found_in common_skills (blank_tokens ''python and SQL and python''))) = Inr mx \<and> 1 \<le> mx
     \<and> (\<forall>v\<in>set (dict_values conf). 0 \<le> v \<and> v \<le> 1)
     \<and> (conf \<noteq> [] \<longrightarrow>
          (\<exists>k. (k, 1) \<in> set conf \<and>
             (\<forall>t. count_list (skills_found_in common_skills (blank_tokens ''python and SQL and python'')) t
                    \<le> count_list (skills_found_in common_skills (blank_tokens ''python and SQL and python'')) k)))
     \<and> (skills_found_in common_skills (blank_tokens ''python and SQL and python'') = [] \<longrightarrow> conf = []))"
  using extract_skills_confidence [OF round_half_even2_rounds2, of blank_tokens "''python and SQL and python''"]
    round_half_even2_rounds2 by blast

subsection \<open>C5\<close>

text \<open>
  Claim C5. The list returned by \<open>score_roles\<close> is in non-increasing order of match
  percentage, and the entries that share a percentage appear in the order in which the
  loop over the catalog produced them, which is the catalog's order of roles.
\<close>

theorem score_roles_sorted_stable:
  "\<exists>scores unsorted. score_roles round2 user_skills cat = Inr scores
     \<and> score_loop round2 user_skills cat [] = Inr unsorted
     \<and> map Role unsorted = keys cat
     \<and> sorted_wrt (\<lambda>a b. Match b \<le> Match a) scores
     \<and> (\<forall>p. filter (\<lambda>e. Match e = p) scores = filter (\<lambda>e. Match e = p) unsorted)"
proof -
  define unsorted where
    "unsorted = map (\<lambda>(role, req_skills). projr (score_entry round2 user_skills role req_skills)) cat"
  have "map Role unsorted = keys cat"
    by (simp add: unsorted_def keys_def score_entry_Inr case_prod_beta)
  moreover have "score_loop round2 user_skills cat [] = Inr unsorted"
    by (simp add: score_loop_Inr unsorted_def)
  moreover have "score_roles round2 user_skills cat = Inr (sorted_reverse Match unsorted)"
    by (simp add: score_roles_Inr unsorted_def)
  ultimately show ?thesis
    using sorted_reverse_descending [of Match unsorted] sorted_reverse_stable [of Match _ unsorted]
    by blast
qed

subsection \<open>C6\<close>

text \<open>
  Claim C6. With no upload, the manual entry \<open>Python, SQL, Statistics\<close> gives the three
  skills with confidence 1; Data Scientist then scores 60 with Python, SQL and Statistics
  matched and Machine Learning and Data Visualization missing, and Full Stack Developer
  scores 0.
\<close>

theorem manual_entry_example:
  assumes "rounds2 round2"
  shows "user_skills_conf_of round2 nlp None ''Python, SQL, Statistics''
      = Inr [(''Python'', 1), (''SQL'', 1), (''Statistics'', 1)]
   \<and> score_roles round2 (keys [(''Python'', 1 :: rat), (''SQL'', 1), (''Statistics'', 1)]) role_skills
      = Inr [\<lparr>Role = ''Data Scientist'', Match = 60,
               Matched_Skills = [''Python'', ''SQL'', ''Statistics''],
               Missing_Skills = [''Machine Learning'', ''Data Visualization'']\<rparr>,
             \<lparr>Role = ''Cybersecurity Analyst'', Match = 20,
               Matched_Skills = [''Python''],
               Missing_Skills = [''Networking'', ''Linux'', ''Threat Analysis'', ''SIEM'']\<rparr>,
             \<lparr>Role = ''Product Manager'', Match = 20,
               Matched_Skills = [''SQL''],
               Missing_Skills = [''Agile'', ''Communication'', ''Market Research'', ''Roadmapping'']\<rparr>,
             \<lparr>Role = ''Full Stack Developer'', Match = 0,
               Matched_Skills = [],
               Missing_Skills = [''JavaScript'', ''React'', ''Node.js'', ''Databases'', ''APIs'']\<rparr>,
             \<lparr>Role = ''Cloud Engineer'', Match = 0,
               Matched_Skills = [],
               Missing_Skills = [''AWS'', ''Docker'', ''Kubernetes'', ''Terraform'', ''Linux'']\<rparr>]"
proof -
  have r60: "round2 60 = 60" using rounds2_two_decimal [OF assms, of 6000] by simp
  have r20: "round2 20 = 20" using rounds2_two_decimal [OF assms, of 2000] by simp
  have r0: "round2 0 = 0" by (rule rounds2_zero [OF assms])
  have c: "user_skills_conf_of round2 nlp None ''Python, SQL, Statistics''
      = Inr [(''Python'', 1), (''SQL'', 1), (''Statistics'', 1)]"
    by (simp add: user_skills_conf_of_def strip_def isspace_def dict_set_def keys_def)
  have s: "score_roles round2 (keys [(''Python'', 1 :: rat), (''SQL'', 1), (''Statistics'', 1)]) role_skills
      = Inr [\<lparr>Role = ''Data Scientist'', Match = 60,
               Matched_Skills = [''Python'', ''SQL'', ''Statistics''],
               Missing_Skills = [''Machine Learning'', ''Data Visualization'']\<rparr>,
             \<lparr>Role = ''Cybersecurity Analyst'', Match = 20,
               Matched_Skills = [''Python''],
               Missing_Skills = [''Networking'', ''Linux'', ''Threat Analysis'', ''SIEM'']\<rparr>,
             \<lparr>Role = ''Product Manager'', Match = 20,
               Matched_Skills = [''SQL''],
               Missing_Skills = [''Agile'', ''Communication'', ''Market Research'', ''Roadmapping'']\<rparr>,
             \<lparr>Role = ''Full Stack Developer'', Match = 0,
               Matched_Skills = [],
               Missing_Skills = [''JavaScript'', ''React'', ''Node.js'', ''Databases'', ''APIs'']\<rparr>,
             \<lparr>Role = ''Cloud Engineer'', Match = 0,
               Matched_Skills = [],
               Missing_Skills = [''AWS'', ''Docker'', ''Kubernetes'', ''Terraform'', ''Linux'']\<rparr>]"
    by (simp add: score_roles_Inr score_entry_Inr role_skills_def keys_def
        exact_match_percentage_def r60 r20 r0 sorted_reverse_def)
  show ?thesis using c s by (rule conjI)
qed

theorem manual_entry_example_witness:
  "rounds2 round_half_even2 \<and>
   user_skills_conf_of round_half_even2 blank_tokens None ''Python, SQL, Statistics''
      = Inr [(''Python'', 1), (''SQL'', 1), (''Statistics'', 1)]
   \<and> score_roles round_half_even2 (keys [(''Python'', 1 :: rat), (''SQL'', 1), (''Statistics'', 1)]) role_skills
      = Inr [\<lparr>Role = ''Data Scientist'', Match = 60,
               Matched_Skills = [''Python'', ''SQL'', ''Statistics''],
               Missing_Skills = [''Machine Learning'', ''Data Visualization'']\<rparr>,
             \<lparr>Role = ''Cybersecurity Analyst'', Match = 20,
               Matched_Skills = [''Python''],
               Missing_Skills = [''Networking'', ''Linux'', ''Threat Analysis'', ''SIEM'']\<rparr>,
             \<lparr>Role = ''Product Manager'', Match = 20,
               Matched_Skills = [''SQL''],
               Missing_Skills = [''Agile'', ''Communication'', ''Market Research'', ''Roadmapping'']\<rparr>,
             \<lparr>Role = ''Full Stack Developer'', Match = 0,
               Matched_Skills = [],
               Missing_Skills = [''JavaScript'', ''React'', ''Node.js'', ''Databases'', ''APIs'']\<rparr>,
             \<lparr>Role = ''Cloud Engineer'', Match = 0,
               Matched_Skills = [],
               Missing_Skills = [''AWS'', ''Docker'', ''Kubernetes'', ''Terraform'', ''Linux'']\<rparr>]"
  using manual_entry_example [OF round_half_even2_rounds2, of blank_tokens] round_half_even2_rounds2
  by (intro conjI) simp_all

subsection \<open>C7\<close>

text \<open>
  Claim C7. For every list of role scores the planner reads the first five entries only
  and emits, role by role and within a role in the order of its missing skills, one item
  per missing skill, with week 1 and the single resource string that names the skill.
  Nothing is removed: a skill missing from two roles gives two items.
\<close>

theorem build_plan_items:
  "build_plan scores = concat (map (\<lambda>entry. map plan_entry (Missing_Skills entry)) (take 5 scores))
   \<and> build_plan scores = build_plan (take 5 scores)
   \<and> map Skill (build_plan scores) = concat (map Missing_Skills (take 5 scores))
   \<and> map Week (build_plan scores) = replicate (length (build_plan scores)) 1
   \<and> map Resources (build_plan scores) =
       map (\<lambda>skill. [''Coursera/YouTube Course on '' @ skill]) (concat (map Missing_Skills (take 5 scores)))
   \<and> map Skill (build_plan
         [\<lparr>Role = ''Cybersecurity Analyst'', Match = 20, Matched_Skills = [''Python''],
           Missing_Skills = [''Networking'', ''Linux'']\<rparr>,
          \<lparr>Role = ''Cloud Engineer'', Match = 0, Matched_Skills = [],
           Missing_Skills = [''AWS'', ''Linux'']\<rparr>])
       = [''Networking'', ''Linux'', ''AWS'', ''Linux'']"
proof -
  have p: "build_plan xs = concat (map (\<lambda>entry. map plan_entry (Missing_Skills entry)) (take 5 xs))" for xs
    by (simp add: build_plan_def plan_loop_eq)
  have s: "map Skill (build_plan xs) = concat (map Missing_Skills (take 5 xs))" for xs
    by (simp add: p map_concat comp_def plan_entry_def)
  have w: "map Week (build_plan scores) = replicate (length (build_plan scores)) 1"
    by (rule nth_equalityI) (auto simp: p plan_entry_def dest!: nth_mem)
  have r: "map Resources (build_plan scores) =
       map (\<lambda>skill. [''Coursera/YouTube Course on '' @ skill]) (concat (map Missing_Skills (take 5 scores)))"
    by (simp add: p map_concat comp_def plan_entry_def)
  have t: "build_plan scores = build_plan (take 5 scores)"
    by (simp add: p)
  have x: "map Skill (build_plan
         [\<lparr>Role = ''Cybersecurity Analyst'', Match = 20, Matched_Skills = [''Python''],
           Missing_Skills = [''Networking'', ''Linux'']\<rparr>,
          \<lparr>Role = ''Cloud Engineer'', Match = 0, Matched_Skills = [],
           Missing_Skills = [''AWS'', ''Linux'']\<rparr>])
       = [''Networking'', ''Linux'', ''AWS'', ''Linux'']"
    by (simp add: s)
  show ?thesis by (intro conjI p s w r t x)
qed

subsection \<open>C8\<close>

text \<open>
  Claim C8. For every list of role scores, parsing the JSON text of the plan gives back a
  list with one object per plan item, each with exactly the fields \<open>Week\<close> (the
  number 1), \<open>Skill\<close> (the skill) and \<open>Resources\<close> (a list of one string, the
  placeholder naming the skill), in the order of the plan.
\<close>

theorem learning_plan_json_roundtrip:
  "json_loads (to_json (build_plan scores)) =
     Some (JArray (map (\<lambda>skill.
             JObject [(''Week'', JInt 1), (''Skill'', JString skill),
                      (''Resources'', JArray [JString (''Coursera/YouTube Course on '' @ skill)])])
           (concat (map Missing_Skills (take 5 scores)))))"
proof -
  have "records (build_plan scores) =
      JArray (map (\<lambda>skill.
             JObject [(''Week'', JInt 1), (''Skill'', JString skill),
                      (''Resources'', JArray [JString (''Coursera/YouTube Course on '' @ skill)])])
           (concat (map Missing_Skills (take 5 scores))))"
    by (simp add: records_def build_plan_concat map_concat comp_def item_json_def plan_entry_def)
  then show ?thesis using json_loads_dumps [of "records (build_plan scores)"] by (simp add: to_json_def)
qed

subsection \<open>C9\<close>

text \<open>
  Claim C9. \<open>parse_pdf\<close> returns a text for every PDF and never an exception: the text of
  each page read before the first failure, each followed by a newline; when the reader or
  a page raises, one message is passed to \<open>st.error\<close> and the text read so far is
  returned. A failure on the second page keeps the first page.
\<close>

theorem parse_pdf_partial:
  "parse_pdf file errors =
     (Inr (concat (map (\<lambda>t. t @ [CHR 0x0A]) (pdf_pages_read file))),
      errors @ (case pdf_first_failure file of
                  None \<Rightarrow> []
                | Some e \<Rightarrow> [''PDF parsing error: '' @ exc_str e]))
   \<and> parse_pdf (Inr [Inr ''page one'', Inl (Exception ''bad page''), Inr ''page three'']) []
       = (Inr (''page one'' @ [CHR 0x0A]), [''PDF parsing error: bad page''])"
proof -
  have g: "parse_pdf f errs =
     (Inr (concat (map (\<lambda>t. t @ [CHR 0x0A]) (pdf_pages_read f))),
      errs @ (case pdf_first_failure f of
                  None \<Rightarrow> []
                | Some e \<Rightarrow> [''PDF parsing error: '' @ exc_str e]))" for f errs
  proof (cases f)
    case (Inl e)
    then show ?thesis by (simp add: parse_pdf_def pdf_pages_read_def pdf_first_failure_def)
  next
    case (Inr pages)
    then show ?thesis
      by (simp add: parse_pdf_def pdf_pages_read_def pdf_first_failure_def pdf_pages_loop_eq
          split: list.splits)
  qed
  have "parse_pdf (Inr [Inr ''page one'', Inl (Exception ''bad page''), Inr ''page three'']) []
       = (Inr (''page one'' @ [CHR 0x0A]), [''PDF parsing error: bad page''])"
    by (simp add: parse_pdf_def)
  then show ?thesis using g [of "file" "errors"] by simp
qed

subsection \<open>C10\<close>

text \<open>
  Claim C10. With no upload, the mapping built from a manual entry has as keys exactly the
  stripped fragments between commas that are not empty after stripping, each once (the
  fragments hold no comma and, joined by commas, give the entry back); a
  stripped fragment is the fragment without its leading and trailing whitespace, so no
  key starts or ends with whitespace; every key has confidence 1. The entry
  \<open>a, ,b,\<close> gives the keys \<open>a\<close> and \<open>b\<close>.
\<close>

theorem manual_skills_mapping:
  "\<exists>conf. user_skills_conf_of round2 nlp None manual_skills = Inr conf
     \<and> set (keys conf) = {strip s | s. s \<in> set (split_on CHR '','' manual_skills) \<and> strip s \<noteq> []}
     \<and> distinct (keys conf)
     \<and> (\<forall>k\<in>set (keys conf). k \<noteq> [] \<and> \<not> isspace (hd k) \<and> \<not> isspace (last k))
     \<and> (\<forall>s\<in>set (split_on CHR '','' manual_skills). \<exists>pre post. s = pre @ strip s @ post
           \<and> (\<forall>c\<in>set pre. isspace c) \<and> (\<forall>c\<in>set post. isspace c))
     \<and> (\<forall>v\<in>set (dict_values conf). v = 1)
     \<and> concat (map (\<lambda>s. s @ '','') (split_on CHR '','' manual_skills)) = manual_skills @ '',''
     \<and> (\<forall>s\<in>set (split_on CHR '','' manual_skills). CHR '','' \<notin> set s)
     \<and> user_skills_conf_of round2 nlp None ''a, ,b,'' = Inr [(''a'', 1), (''b'', 1)]"
proof -
  define conf where "conf = manual_loop (split_on CHR '','' manual_skills) []"
  have e: "user_skills_conf_of round2 nlp None manual_skills = Inr conf"
    by (cases manual_skills) (simp_all add: user_skills_conf_of_def conf_def strip_def)
  have k: "set (keys conf) = {strip s | s. s \<in> set (split_on CHR '','' manual_skills) \<and> strip s \<noteq> []}"
    unfolding conf_def manual_loop_keys by (simp add: keys_def)
  have d: "distinct (keys conf)"
    unfolding conf_def by (rule manual_loop_distinct) (simp add: keys_def)
  have n: "\<forall>k\<in>set (keys conf). k \<noteq> [] \<and> \<not> isspace (hd k) \<and> \<not> isspace (last k)"
    unfolding k using strip_ends by auto
  have p: "\<forall>s\<in>set (split_on CHR '','' manual_skills). \<exists>pre post. s = pre @ strip s @ post
           \<and> (\<forall>c\<in>set pre. isspace c) \<and> (\<forall>c\<in>set post. isspace c)"
    using strip_decompose by blast
  have v: "\<forall>v\<in>set (dict_values conf). v = 1"
    using manual_loop_values [of "split_on CHR '','' manual_skills" "[]"]
    by (auto simp: conf_def dict_values_def)
  have x: "user_skills_conf_of round2 nlp None ''a, ,b,'' = Inr [(''a'', 1), (''b'', 1)]"
    by (simp add: user_skills_conf_of_def strip_def isspace_def dict_set_def keys_def)
  have j: "concat (map (\<lambda>s. s @ '','') (split_on CHR '','' manual_skills)) = manual_skills @ '',''"
    using split_on_join [of "CHR '',''" manual_skills] by simp
  have f: "\<forall>s\<in>set (split_on CHR '','' manual_skills). CHR '','' \<notin> set s"
    using split_on_free by blast
  show ?thesis using e k d n p v j f x by blast
qed

theorem manual_skills_mapping_witness:
  "\<exists>conf. user_skills_conf_of round_half_even2 blank_tokens None '' Python ,SQL,, Python'' = Inr conf
     \<and> set (keys conf) = {strip s | s. s \<in> set (split_on CHR '','' '' Python ,SQL,, Python'') \<and> strip s \<noteq> []}
     \<and> distinct (keys conf)
     \<and> (\<forall>k\<in>set (keys conf). k \<noteq> [] \<and> \<not> isspace (hd k) \<and> \<not> isspace (last k))
     \<and> (\<forall>s\<in>set (split_on CHR '','' '' Python ,SQL,, Python''). \<exists>pre post. s = pre @ strip s @ post
           \<and> (\<forall>c\<in>set pre. isspace c) \<and> (\<forall>c\<in>set post. isspace c))
     \<and> (\<forall>v\<in>set (dict_values conf). v = 1)
     \<and> concat (map (\<lambda>s. s @ '','') (split_on CHR '','' '' Python ,SQL,, Python'')) = '' Python ,SQL,, Python'' @ '',''
     \<and> (\<forall>s\<in>set (split_on CHR '','' '' Python ,SQL,, Python''). CHR '','' \<notin> set s)
     \<and> user_skills_conf_of round_half_even2 blank_tokens None ''a, ,b,'' = Inr [(''a'', 1), (''b'', 1)]"
  by (rule manual_skills_mapping [of round_half_even2 blank_tokens "'' Python ,SQL,, Python''"])

end
